theory Spec2Isabelle
  imports Main "HOL-Library.Word"
begin

section \<open>Host values\<close>

text \<open>
  The value graph handed to \<open>structuredSerialize\<close> lives in the host's heap.  A primitive
  carries no identity; every other value is an address into the heap, and identity of
  two non-primitive values is equality of their addresses.
\<close>

type_synonym addr = nat

text \<open>
  Numbers are modelled on the integer-valued doubles together with \<open>NaN\<close> and the two
  infinities; \<open>toString\<close> of such a number is its decimal text.
\<close>

datatype number = NaN | PosInfinity | NegInfinity | Finite int

datatype val =
    VUndefined
  | VNull
  | VBoolean bool
  | VNumber number
  | VBigInt int
  | VString string
  | VSymbol string
  | VObj addr

text \<open>
  The classes the serializer tells apart with \<open>instanceof\<close>, \<open>Array.isArray\<close> and
  \<open>typeof\<close>.  A date is its ISO text, \<open>None\<close> for an invalid date (whose
  \<open>toISOString\<close> throws).  A view holds its constructor name, the address of its buffer,
  its byte offset and its byte length.  An error holds its name and its own message
  property, if it has one.  An array holds its length and its other own properties in
  enumeration order; a plain object holds its own string-keyed properties.
\<close>

datatype obj =
    BooleanObj bool
  | NumberObj number
  | StringObj string
  | DateObj "string option"
  | RegExpObj string string
  | ArrayBufferObj "8 word list"
  | ViewObj string addr nat nat
  | MapObj "(val \<times> val) list"
  | SetObj "val list"
  | ErrorObj string "string option"
  | ArrayObj nat "(string \<times> val) list"
  | PlainObj "(string \<times> val) list"
  | WeakMapObj
  | WeakSetObj
  | PromiseObj
  | WeakRefObj
  | FinalizationRegistryObj
  | FunctionObj

type_synonym heap = "obj list"

text \<open>What the host throws.  \<open>Dangling\<close> is an address outside the heap, which no host
  value is; \<open>Unmodelled\<close> marks host behaviour outside this embedding.\<close>

datatype error =
    TypeError string
  | RangeError string
  | SyntaxError string
  | Error string
  | Dangling
  | Unmodelled

section \<open>Decimal text\<close>

definition digit_char :: "nat \<Rightarrow> char" where
  "digit_char d = ''0123456789'' ! d"

definition digit_val :: "char \<Rightarrow> nat option" where
  "digit_val =
     map_of [(CHR ''0'', 0), (CHR ''1'', 1), (CHR ''2'', 2), (CHR ''3'', 3), (CHR ''4'', 4),
             (CHR ''5'', 5), (CHR ''6'', 6), (CHR ''7'', 7), (CHR ''8'', 8), (CHR ''9'', 9)]"

fun nat_toString :: "nat \<Rightarrow> string" where
  "nat_toString n =
     (if n < 10 then [digit_char n] else nat_toString (n div 10) @ [digit_char (n mod 10)])"

declare nat_toString.simps [simp del]

fun parse_digits :: "nat \<Rightarrow> string \<Rightarrow> nat option" where
  "parse_digits acc [] = Some acc"
| "parse_digits acc (c # cs) =
     (case digit_val c of None \<Rightarrow> None | Some d \<Rightarrow> parse_digits (10 * acc + d) cs)"

definition parse_nat :: "string \<Rightarrow> nat option" where
  "parse_nat s = (if s = [] then None else parse_digits 0 s)"

definition int_toString :: "int \<Rightarrow> string" where
  "int_toString i = (if i < 0 then CHR ''-'' # nat_toString (nat (- i)) else nat_toString (nat i))"

definition parse_int :: "string \<Rightarrow> int option" where
  "parse_int s =
     (case s of
        [] \<Rightarrow> None
      | c # cs \<Rightarrow>
          if c = CHR ''-'' then map_option (\<lambda>n. - int n) (parse_nat cs)
          else map_option int (parse_nat s))"

text \<open>\<open>Number.prototype.toString\<close> and \<open>Number(text)\<close>.  The empty text converts to
  zero; text that is not decimal converts to \<open>NaN\<close>.\<close>

fun number_toString :: "number \<Rightarrow> string" where
  "number_toString NaN = ''NaN''"
| "number_toString PosInfinity = ''Infinity''"
| "number_toString NegInfinity = ''-Infinity''"
| "number_toString (Finite i) = int_toString i"

definition toNumber :: "string \<Rightarrow> number" where
  "toNumber s =
     (if s = [] then Finite 0
      else if s = ''Infinity'' then PosInfinity
      else if s = ''-Infinity'' then NegInfinity
      else case parse_int s of Some i \<Rightarrow> Finite i | None \<Rightarrow> NaN)"

text \<open>\<open>BigInt(text)\<close> throws a \<open>SyntaxError\<close> on text that is not an integer.\<close>

definition toBigInt :: "string \<Rightarrow> error + int" where
  "toBigInt s =
     (if s = [] then Inr 0
      else case parse_int s of Some i \<Rightarrow> Inr i | None \<Rightarrow> Inl (SyntaxError ''Cannot convert to a BigInt''))"

definition bool_toString :: "bool \<Rightarrow> string" where
  "bool_toString b = (if b then ''true'' else ''false'')"

section \<open>The serialized form\<close>

text \<open>
  \<open>ChildSerialization\<close>: an inlined primitive (its \<open>primitiveType\<close> and \<open>value\<close> texts) or
  a reference into the record array.  A parsed envelope may carry any number as
  \<open>referenceId\<close> and any text as a discriminator, so the id is an integer and the
  discriminators that the code compares against are kept as text.
\<close>

datatype ChildSerialization =
    Primitive string string
  | Reference int

text \<open>
  \<open>ComplexSerialization\<close>, one constructor per \<open>type\<close> tag with the fields of that record
  type; \<open>UnknownS\<close> is a parsed record whose \<open>type\<close> is none of the twelve tags.
\<close>

datatype ComplexSerialization =
    BooleanS string
  | NumberS string
  | StringS string
  | DateS string
  | RegExpS string string
  | ArrayBufferS int string
  | ArrayBufferViewS string int int ChildSerialization
  | MapS "(ChildSerialization \<times> ChildSerialization) list"
  | SetS "ChildSerialization list"
  | ErrorS string "string option"
  | ArrayS int "(string \<times> ChildSerialization) list"
  | ObjectS "(string \<times> ChildSerialization) list"
  | UnknownS string

datatype TopLevelSerialization =
    TopLevel "ComplexSerialization list" ChildSerialization
  | TopPrimitive string string

text \<open>The encoder's \<open>Memory\<close>: a host \<open>Map\<close> from values to their records, in insertion
  order.\<close>

type_synonym Memory = "(val \<times> ComplexSerialization) list"

definition memory_has :: "Memory \<Rightarrow> val \<Rightarrow> bool" where
  "memory_has mem v = (v \<in> set (map fst mem))"

fun indexOf :: "'a list \<Rightarrow> 'a \<Rightarrow> int" where
  "indexOf [] x = - 1"
| "indexOf (y # ys) x =
     (if x = y then 0 else (let i = indexOf ys x in if i < 0 then - 1 else i + 1))"

fun memory_set :: "Memory \<Rightarrow> val \<Rightarrow> ComplexSerialization \<Rightarrow> Memory" where
  "memory_set [] v s = [(v, s)]"
| "memory_set ((k, r) # mem) v s =
     (if k = v then (k, s) # mem else (k, r) # memory_set mem v s)"

text \<open>The three \<open>push\<close> calls mutate the record that already sits in the memory under
  \<open>value\<close>.\<close>

fun push_mapData ::
  "Memory \<Rightarrow> val \<Rightarrow> ChildSerialization \<times> ChildSerialization \<Rightarrow> Memory" where
  "push_mapData [] v e = []"
| "push_mapData ((k, r) # mem) v e =
     (if k = v then (k, (case r of MapS es \<Rightarrow> MapS (es @ [e]) | _ \<Rightarrow> r)) # mem
      else (k, r) # push_mapData mem v e)"

fun push_setData :: "Memory \<Rightarrow> val \<Rightarrow> ChildSerialization \<Rightarrow> Memory" where
  "push_setData [] v e = []"
| "push_setData ((k, r) # mem) v e =
     (if k = v then (k, (case r of SetS es \<Rightarrow> SetS (es @ [e]) | _ \<Rightarrow> r)) # mem
      else (k, r) # push_setData mem v e)"

fun push_properties :: "Memory \<Rightarrow> val \<Rightarrow> string \<times> ChildSerialization \<Rightarrow> Memory" where
  "push_properties [] v e = []"
| "push_properties ((k, r) # mem) v e =
     (if k = v
      then (k, (case r of ArrayS n ps \<Rightarrow> ArrayS n (ps @ [e])
                        | ObjectS ps \<Rightarrow> ObjectS (ps @ [e]) | _ \<Rightarrow> r)) # mem
      else (k, r) # push_properties mem v e)"

definition standard_error_names :: "string list" where
  "standard_error_names =
     [''Error'', ''EvalError'', ''RangeError'', ''ReferenceError'', ''SyntaxError'',
      ''TypeError'', ''URIError'']"

fun join_commas :: "string list \<Rightarrow> string" where
  "join_commas [] = []"
| "join_commas [s] = s"
| "join_commas (s # t # ss) = s @ '','' @ join_commas (t # ss)"

text \<open>\<open>Object.getOwnPropertyNames\<close> with \<open>Reflect.get\<close>: an array lists its own properties
  and then \<open>length\<close>.\<close>

fun own_properties :: "obj \<Rightarrow> (string \<times> val) list" where
  "own_properties (ArrayObj n ps) = ps @ [(''length'', VNumber (Finite (int n)))]"
| "own_properties (PlainObj ps) = ps"
| "own_properties _ = []"

section \<open>The encoder\<close>

text \<open>
  A call either throws (\<open>Inl\<close>) or returns (\<open>Inr\<close>); \<open>None\<close> is a call whose recursion
  is deeper than the depth the model was given.
\<close>

type_synonym 'a result = "(error + 'a) option"

fun and_then :: "'a result \<Rightarrow> ('a \<Rightarrow> 'b result) \<Rightarrow> 'b result" where
  "and_then None f = None"
| "and_then (Some (Inl e)) f = Some (Inl e)"
| "and_then (Some (Inr x)) f = f x"

text \<open>A \<open>for ... of\<close> loop whose body may throw, threading the mutable state.\<close>

fun for_of :: "('a \<Rightarrow> 's \<Rightarrow> 's result) \<Rightarrow> 'a list \<Rightarrow> 's \<Rightarrow> 's result" where
  "for_of body [] s = Some (Inr s)"
| "for_of body (x # xs) s = and_then (body x s) (for_of body xs)"

definition reference_to :: "Memory \<Rightarrow> val \<Rightarrow> ChildSerialization" where
  "reference_to mem v = Reference (indexOf (map fst mem) v)"

text \<open>
  \<open>structuredSerializeInternal\<close>.  The first argument bounds the depth of the recursion.
  The leaf classes and the view build \<open>serialized\<close> and then reach \<open>memory.set\<close>; the
  containers reach \<open>memory.set\<close> with an empty record and fill it afterwards.
\<close>

primrec structuredSerializeInternal ::
  "nat \<Rightarrow> heap \<Rightarrow> val \<Rightarrow> Memory \<Rightarrow> (ChildSerialization \<times> Memory) result" where
  "structuredSerializeInternal 0 h v mem = None"
| "structuredSerializeInternal (Suc n) h v mem =
    (if memory_has mem v then Some (Inr (reference_to mem v, mem))
     else case v of
       VUndefined \<Rightarrow> Some (Inr (Primitive ''undefined'' ''undefined'', mem))
     | VNull \<Rightarrow> Some (Inr (Primitive ''null'' ''null'', mem))
     | VBoolean b \<Rightarrow> Some (Inr (Primitive ''boolean'' (bool_toString b), mem))
     | VNumber x \<Rightarrow> Some (Inr (Primitive ''number'' (number_toString x), mem))
     | VBigInt i \<Rightarrow> Some (Inr (Primitive ''bigint'' (int_toString i), mem))
     | VString s \<Rightarrow> Some (Inr (Primitive ''string'' s, mem))
     | VSymbol d \<Rightarrow> Some (Inl (TypeError ''Cannot serialize a Symbol''))
     | VObj a \<Rightarrow>
        (if length h \<le> a then Some (Inl Dangling)
         else
          (let leaf = (\<lambda>mem' serialized.
                 (let mem'' = memory_set mem' v serialized
                  in Some (Inr (reference_to mem'' v, mem''))));
               deep = (\<lambda>serialized fill.
                 and_then (fill (memory_set mem v serialized))
                   (\<lambda>mem''. Some (Inr (reference_to mem'' v, mem''))))
           in case h ! a of
             BooleanObj b \<Rightarrow> leaf mem (BooleanS (bool_toString b))
           | NumberObj x \<Rightarrow> leaf mem (NumberS (number_toString x))
           | StringObj s \<Rightarrow> leaf mem (StringS s)
           | DateObj d \<Rightarrow>
               (case d of
                  None \<Rightarrow> Some (Inl (RangeError ''Invalid time value''))
                | Some isoText \<Rightarrow> leaf mem (DateS isoText))
           | RegExpObj src flags \<Rightarrow> leaf mem (RegExpS src flags)
           | ArrayBufferObj bytes \<Rightarrow>
               leaf mem (ArrayBufferS (int (length bytes))
                          (join_commas (map (\<lambda>b. nat_toString (unat b)) bytes)))
           | ViewObj name buffer byteOffset byteLength \<Rightarrow>
               and_then (structuredSerializeInternal n h (VObj buffer) mem)
                 (\<lambda>(bufferSerialized, mem').
                    leaf mem' (ArrayBufferViewS name (int byteOffset) (int byteLength)
                                 bufferSerialized))
           | MapObj entries \<Rightarrow>
               deep (MapS [])
                 (for_of (\<lambda>(key, val) m.
                    and_then (structuredSerializeInternal n h key m)
                      (\<lambda>(serializedKey, m1).
                         and_then (structuredSerializeInternal n h val m1)
                           (\<lambda>(serializedVal, m2).
                              Some (Inr (push_mapData m2 v (serializedKey, serializedVal))))))
                    entries)
           | SetObj elems \<Rightarrow>
               deep (SetS [])
                 (for_of (\<lambda>val m.
                    and_then (structuredSerializeInternal n h val m)
                      (\<lambda>(serializedVal, m1). Some (Inr (push_setData m1 v serializedVal))))
                    elems)
           | ErrorObj name message \<Rightarrow>
               leaf mem (ErrorS (if name \<in> set standard_error_names then name else ''Error'')
                           message)
           | ArrayObj len ps \<Rightarrow>
               deep (ArrayS (int len) [])
                 (for_of (\<lambda>(ownPropertyName, inputValue) m.
                    and_then (structuredSerializeInternal n h inputValue m)
                      (\<lambda>(outputValue, m1).
                         Some (Inr (push_properties m1 v (ownPropertyName, outputValue)))))
                    (own_properties (h ! a)))
           | PlainObj ps \<Rightarrow>
               deep (ObjectS [])
                 (for_of (\<lambda>(ownPropertyName, inputValue) m.
                    and_then (structuredSerializeInternal n h inputValue m)
                      (\<lambda>(outputValue, m1).
                         Some (Inr (push_properties m1 v (ownPropertyName, outputValue)))))
                    (own_properties (h ! a)))
           | WeakMapObj \<Rightarrow> Some (Inl (TypeError ''Cannot serialize a WeakMap or WeakSet''))
           | WeakSetObj \<Rightarrow> Some (Inl (TypeError ''Cannot serialize a WeakMap or WeakSet''))
           | PromiseObj \<Rightarrow> Some (Inl (TypeError ''Cannot serialize a Promise''))
           | WeakRefObj \<Rightarrow> Some (Inl (TypeError ''Cannot serialize a WeakRef''))
           | FinalizationRegistryObj \<Rightarrow>
               Some (Inl (TypeError ''Cannot serialize a FinalizationRegistry''))
           | FunctionObj \<Rightarrow> Some (Inl (TypeError ''Cannot serialize a function'')))))"

declare structuredSerializeInternal.simps [simp del]

text \<open>
  \<open>structuredSerialize\<close>.  No call chain is longer than the number of objects in the
  heap plus one, since every call that descends has first put a new key into the
  memory (a view descends once more, into its buffer, before it does).  The result is
  the object that \<open>JSON.stringify\<close> is applied to.
\<close>

definition structuredSerialize :: "heap \<Rightarrow> val \<Rightarrow> TopLevelSerialization result" where
  "structuredSerialize h v =
     and_then (structuredSerializeInternal (length h + 2) h v [])
       (\<lambda>(serialized, memory).
          case serialized of
            Primitive t x \<Rightarrow> Some (Inr (TopPrimitive t x))
          | Reference i \<Rightarrow> Some (Inr (TopLevel (map snd memory) serialized)))"

section \<open>Host operations used by the decoder\<close>

text \<open>\<open>String.prototype.split(',')\<close>: the pieces between the commas, one piece for a text
  without comma (also for the empty text).\<close>

fun split_commas :: "string \<Rightarrow> string list" where
  "split_commas [] = [[]]"
| "split_commas (c # cs) =
     (if c = CHR '','' then [] # split_commas cs
      else (case split_commas cs of
              [] \<Rightarrow> [[c]]
            | p # ps \<Rightarrow> (c # p) # ps))"

text \<open>Storing a number into a \<open>Uint8Array\<close> element.\<close>

fun toUint8 :: "number \<Rightarrow> 8 word" where
  "toUint8 (Finite i) = word_of_int i"
| "toUint8 _ = 0"

text \<open>
  \<open>new Uint8Array(size)\<close> with \<open>size\<close> the byte length, the loop \<open>data[i] = Number(dataParts[i])\<close> (a store beyond
  the end of the array is ignored), and \<open>data.buffer\<close>.
\<close>

definition decode_buffer_bytes :: "int \<Rightarrow> string \<Rightarrow> error + 8 word list" where
  "decode_buffer_bytes byteLength arrayBufferData =
     (if byteLength < 0 then Inl (RangeError ''Invalid typed array length'')
      else
       (let dataParts = split_commas arrayBufferData
        in Inr (map (\<lambda>i. if i < length dataParts then toUint8 (toNumber (dataParts ! i)) else 0)
                  [0 ..< nat byteLength])))"

text \<open>
  The \<open>switch (typedArrayName)\<close>: the element size of the selected constructor.  The
  \<open>'DataView'\<close> case has no \<open>break\<close> and runs on into \<open>default\<close>, which throws.
\<close>

definition typedArrayConstructor :: "string \<Rightarrow> error + nat" where
  "typedArrayConstructor typedArrayName =
     (if typedArrayName = ''Int8Array'' then Inr 1
      else if typedArrayName = ''Uint8Array'' then Inr 1
      else if typedArrayName = ''Uint8ClampedArray'' then Inr 1
      else if typedArrayName = ''Int16Array'' then Inr 2
      else if typedArrayName = ''Uint16Array'' then Inr 2
      else if typedArrayName = ''Int32Array'' then Inr 4
      else if typedArrayName = ''Uint32Array'' then Inr 4
      else if typedArrayName = ''Float32Array'' then Inr 4
      else if typedArrayName = ''Float64Array'' then Inr 8
      else if typedArrayName = ''BigInt64Array'' then Inr 8
      else if typedArrayName = ''BigUint64Array'' then Inr 8
      else if typedArrayName = ''DataView'' then Inl (Error ''Unknown typed array name'')
      else Inl (Error ''Unknown typed array name''))"

text \<open>
  \<open>new typedArrayConstructor(arrayBuffer, byteOffset, length)\<close> for a typed array
  constructor: the third argument counts elements.  The result is the new view.  Only
  the call on an \<open>ArrayBuffer\<close> is modelled.
\<close>

definition construct_view ::
  "heap \<Rightarrow> string \<Rightarrow> nat \<Rightarrow> val \<Rightarrow> int \<Rightarrow> int \<Rightarrow> error + obj" where
  "construct_view heap name elementSize arrayBuffer byteOffset len =
     (case arrayBuffer of
        VObj b \<Rightarrow>
          (if b < length heap then
             (case heap ! b of
                ArrayBufferObj bytes \<Rightarrow>
                  (if byteOffset < 0 then Inl (RangeError ''Invalid typed array offset'')
                   else if byteOffset mod int elementSize \<noteq> 0
                     then Inl (RangeError ''start offset must be a multiple of the element size'')
                   else if len < 0 then Inl (RangeError ''Invalid typed array length'')
                   else if int (length bytes) < byteOffset + len * int elementSize
                     then Inl (RangeError ''Invalid typed array length'')
                   else Inr (ViewObj name b (nat byteOffset) (nat len * elementSize)))
              | _ \<Rightarrow> Inl Unmodelled)
           else Inl Dangling)
      | _ \<Rightarrow> Inl Unmodelled)"

text \<open>An insertion-ordered association: a present key keeps its place.\<close>

fun assoc_set :: "('k \<times> 'v) list \<Rightarrow> 'k \<Rightarrow> 'v \<Rightarrow> ('k \<times> 'v) list" where
  "assoc_set [] k v = [(k, v)]"
| "assoc_set ((k', v') # kvs) k v =
     (if k' = k then (k', v) # kvs else (k', v') # assoc_set kvs k v)"

text \<open>\<open>Map.prototype.set\<close> and \<open>Set.prototype.add\<close>, on the object and on the object at an
  address of the heap.\<close>

fun map_put :: "obj \<Rightarrow> val \<Rightarrow> val \<Rightarrow> obj" where
  "map_put (MapObj es) k v = MapObj (assoc_set es k v)"
| "map_put ob k v = ob"

fun set_insert :: "obj \<Rightarrow> val \<Rightarrow> obj" where
  "set_insert (SetObj es) v = SetObj (if v \<in> set es then es else es @ [v])"
| "set_insert ob v = ob"

definition map_set :: "heap \<Rightarrow> addr \<Rightarrow> val \<Rightarrow> val \<Rightarrow> heap" where
  "map_set heap a k v = heap[a := map_put (heap ! a) k v]"

definition set_add :: "heap \<Rightarrow> addr \<Rightarrow> val \<Rightarrow> heap" where
  "set_add heap a v = heap[a := set_insert (heap ! a) v]"

text \<open>An array index is the canonical decimal text of a number below \<open>2^32 - 1\<close>.\<close>

definition array_index :: "string \<Rightarrow> nat option" where
  "array_index key =
     (case parse_nat key of
        None \<Rightarrow> None
      | Some i \<Rightarrow> if nat_toString i = key \<and> int i < 4294967295 then Some i else None)"

text \<open>
  \<open>Reflect.set(value, key, deserializedValue)\<close> on an array or a plain object, and on the
  object at an address of the heap.  On an array, an index at or beyond the length grows
  the length, and the key \<open>length\<close> sets it, dropping the elements beyond.  Setting
  \<open>__proto__\<close>, and setting \<open>length\<close> to something that is not a number, are not
  modelled.
\<close>

definition set_property :: "obj \<Rightarrow> string \<Rightarrow> val \<Rightarrow> error + obj" where
  "set_property ob key v =
     (if key = ''__proto__'' then Inl Unmodelled
      else case ob of
        PlainObj ps \<Rightarrow> Inr (PlainObj (assoc_set ps key v))
      | ArrayObj len ps \<Rightarrow>
          (if key = ''length'' then
             (case v of
                VNumber x \<Rightarrow>
                  (case x of
                     Finite k \<Rightarrow>
                       (if 0 \<le> k \<and> k < 4294967296
                        then Inr (ArrayObj (nat k)
                               (filter (\<lambda>(key', _). case array_index key' of
                                          None \<Rightarrow> True | Some i \<Rightarrow> i < nat k) ps))
                        else Inl (RangeError ''Invalid array length''))
                   | _ \<Rightarrow> Inl (RangeError ''Invalid array length''))
              | _ \<Rightarrow> Inl Unmodelled)
           else
             (case array_index key of
                Some i \<Rightarrow> Inr (ArrayObj (max len (i + 1)) (assoc_set ps key v))
              | None \<Rightarrow> Inr (ArrayObj len (assoc_set ps key v))))
      | _ \<Rightarrow> Inr ob)"

definition reflect_set :: "heap \<Rightarrow> addr \<Rightarrow> string \<Rightarrow> val \<Rightarrow> error + heap" where
  "reflect_set heap a key v =
     (case set_property (heap ! a) key v of
        Inl e \<Rightarrow> Inl e
      | Inr ob \<Rightarrow> Inr (heap[a := ob]))"

section \<open>The decoder\<close>

text \<open>
  The decoder's memory maps a reference id to the value already built for it.  The
  decoder builds its values in a heap of its own, starting empty; a new object takes the
  next address.
\<close>

type_synonym DecodeMemory = "int \<rightharpoonup> val"

type_synonym decode_state = "DecodeMemory \<times> heap"

definition throw :: "error \<Rightarrow> 'a result" where
  "throw e = Some (Inl e)"

definition return :: "'a \<Rightarrow> 'a result" where
  "return x = Some (Inr x)"

text \<open>The \<open>switch (serialized.primitiveType)\<close>; with no case taken, \<open>value\<close> stays
  \<open>undefined\<close>.\<close>

definition decode_primitive :: "string \<Rightarrow> string \<Rightarrow> error + val" where
  "decode_primitive primitiveType x =
     (if primitiveType = ''undefined'' then Inr VUndefined
      else if primitiveType = ''null'' then Inr VNull
      else if primitiveType = ''boolean'' then Inr (VBoolean (x = ''true''))
      else if primitiveType = ''number'' then Inr (VNumber (toNumber x))
      else if primitiveType = ''bigint'' then map_sum id VBigInt (toBigInt x)
      else if primitiveType = ''string'' then Inr (VString x)
      else Inr VUndefined)"

text \<open>
  \<open>structuredDeserializeInternal\<close>; the first argument bounds the depth of the
  recursion.  \<open>objects[referenceId]\<close> outside the array is \<open>undefined\<close>, and reading its
  \<open>type\<close> throws a \<open>TypeError\<close>.  A record with an unknown \<open>type\<close> takes no branch:
  \<open>value\<close> stays \<open>undefined\<close>, is stored in the memory and returned.
\<close>

primrec structuredDeserializeInternal ::
  "nat \<Rightarrow> ComplexSerialization list \<Rightarrow> ChildSerialization \<Rightarrow> decode_state \<Rightarrow>
     (val \<times> decode_state) result" where
  "structuredDeserializeInternal 0 objects serialized st = None"
| "structuredDeserializeInternal (Suc n) objects serialized st =
    (case serialized of
       Primitive primitiveType x \<Rightarrow>
         (case decode_primitive primitiveType x of
            Inl e \<Rightarrow> throw e
          | Inr value \<Rightarrow> return (value, st))
     | Reference referenceId \<Rightarrow>
         (case fst st referenceId of
            Some value \<Rightarrow> return (value, st)
          | None \<Rightarrow>
             (if referenceId < 0 \<or> int (length objects) \<le> referenceId
              then throw (TypeError ''Cannot read properties of undefined'')
              else
               (let memory = fst st; heap = snd st; a = length heap;
                    leaf = (\<lambda>value. return (VObj a, memory(referenceId \<mapsto> VObj a), heap @ [value]));
                    deep = (\<lambda>value fill.
                      and_then (fill (memory(referenceId \<mapsto> VObj a), heap @ [value]))
                        (\<lambda>st'. return (VObj a, st')))
                in case objects ! nat referenceId of
                  BooleanS booleanData \<Rightarrow> leaf (BooleanObj (booleanData = ''true''))
                | NumberS numberData \<Rightarrow> leaf (NumberObj (toNumber numberData))
                | StringS stringData \<Rightarrow> leaf (StringObj stringData)
                | DateS dateData \<Rightarrow> leaf (DateObj (Some dateData))
                | RegExpS originalSource originalFlags \<Rightarrow>
                    leaf (RegExpObj originalSource originalFlags)
                | ArrayBufferS byteLength arrayBufferData \<Rightarrow>
                    (case decode_buffer_bytes byteLength arrayBufferData of
                       Inl e \<Rightarrow> throw e
                     | Inr bytes \<Rightarrow> leaf (ArrayBufferObj bytes))
                | ArrayBufferViewS typedArrayName typedArrayByteOffset typedArrayByteLength
                    arrayBufferSerialized \<Rightarrow>
                    (case typedArrayConstructor typedArrayName of
                       Inl e \<Rightarrow> throw e
                     | Inr elementSize \<Rightarrow>
                        and_then (structuredDeserializeInternal n objects arrayBufferSerialized st)
                          (\<lambda>(arrayBuffer, st1).
                             case construct_view (snd st1) typedArrayName elementSize arrayBuffer
                                    typedArrayByteOffset typedArrayByteLength of
                               Inl e \<Rightarrow> throw e
                             | Inr typedArray \<Rightarrow>
                                 return (VObj (length (snd st1)),
                                   (fst st1)(referenceId \<mapsto> VObj (length (snd st1))),
                                   snd st1 @ [typedArray])))
                | MapS mapData \<Rightarrow>
                    deep (MapObj [])
                      (for_of (\<lambda>(serializedKey, serializedValue) s.
                         and_then (structuredDeserializeInternal n objects serializedKey s)
                           (\<lambda>(deserializedKey, s1).
                              and_then (structuredDeserializeInternal n objects serializedValue s1)
                                (\<lambda>(deserializedValue, s2).
                                   return (fst s2,
                                     map_set (snd s2) a deserializedKey deserializedValue))))
                         mapData)
                | SetS setData \<Rightarrow>
                    deep (SetObj [])
                      (for_of (\<lambda>serializedValue s.
                         and_then (structuredDeserializeInternal n objects serializedValue s)
                           (\<lambda>(deserializedValue, s1).
                              return (fst s1, set_add (snd s1) a deserializedValue)))
                         setData)
                | ArrayS len properties \<Rightarrow>
                    (if len < 0 \<or> 4294967296 \<le> len then throw (RangeError ''Invalid array length'')
                     else
                      deep (ArrayObj (nat len) [])
                        (for_of (\<lambda>(key, serializedValue) s.
                           and_then (structuredDeserializeInternal n objects serializedValue s)
                             (\<lambda>(deserializedValue, s1).
                                case reflect_set (snd s1) a key deserializedValue of
                                  Inl e \<Rightarrow> throw e
                                | Inr heap' \<Rightarrow> return (fst s1, heap')))
                           properties))
                | ObjectS properties \<Rightarrow>
                    deep (PlainObj [])
                      (for_of (\<lambda>(key, serializedValue) s.
                         and_then (structuredDeserializeInternal n objects serializedValue s)
                           (\<lambda>(deserializedValue, s1).
                              case reflect_set (snd s1) a key deserializedValue of
                                Inl e \<Rightarrow> throw e
                              | Inr heap' \<Rightarrow> return (fst s1, heap')))
                         properties)
                | ErrorS name message \<Rightarrow> leaf (ErrorObj name message)
                | UnknownS t \<Rightarrow> return (VUndefined, memory(referenceId \<mapsto> VUndefined), heap)))))"

declare structuredDeserializeInternal.simps [simp del]

text \<open>
  \<open>structuredDeserialize\<close> on the parsed envelope: the decoded value together with the
  heap it lives in.
\<close>

definition structuredDeserialize ::
  "nat \<Rightarrow> TopLevelSerialization \<Rightarrow> (val \<times> heap) result" where
  "structuredDeserialize depth serialized =
     and_then
       (case serialized of
          TopPrimitive primitiveType x \<Rightarrow>
            structuredDeserializeInternal depth [] (Primitive primitiveType x) (Map.empty, [])
        | TopLevel objects topLevelValue \<Rightarrow>
            structuredDeserializeInternal depth objects topLevelValue (Map.empty, []))
       (\<lambda>(value, st). return (value, snd st))"

section \<open>What the encoder is meant to produce\<close>

text \<open>
  The vocabulary for stating what an envelope says about a heap.  \<open>children\<close> are the
  values that the encoder descends into; a primitive is a value of one of the six
  inlined types.
\<close>

fun is_primitive :: "val \<Rightarrow> bool" where
  "is_primitive (VObj a) = False"
| "is_primitive (VSymbol d) = False"
| "is_primitive _ = True"

fun children :: "obj \<Rightarrow> val list" where
  "children (ViewObj name buffer byteOffset byteLength) = [VObj buffer]"
| "children (MapObj entries) = concat (map (\<lambda>(k, v). [k, v]) entries)"
| "children (SetObj elems) = elems"
| "children (ArrayObj len ps) = map snd ps"
| "children (PlainObj ps) = map snd ps"
| "children _ = []"

text \<open>The classes that the encoder has a record type for (a date must be valid).\<close>

fun supported :: "obj \<Rightarrow> bool" where
  "supported WeakMapObj = False"
| "supported WeakSetObj = False"
| "supported PromiseObj = False"
| "supported WeakRefObj = False"
| "supported FinalizationRegistryObj = False"
| "supported FunctionObj = False"
| "supported (DateObj None) = False"
| "supported _ = True"

text \<open>
  A heap as the host can hand it over: every address stored in an object is an object
  of the heap, the buffer of a view is an \<open>ArrayBuffer\<close>, the keys of a map, the
  elements of a set and the property names of an object are distinct, no own property
  is called \<open>__proto__\<close>, and the listed properties of an array are indices below its
  length, which is below \<open>2^32\<close>.
\<close>

fun is_ArrayBuffer :: "obj \<Rightarrow> bool" where
  "is_ArrayBuffer (ArrayBufferObj bytes) = True"
| "is_ArrayBuffer _ = False"

fun wf_obj :: "heap \<Rightarrow> obj \<Rightarrow> bool" where
  "wf_obj h (ViewObj name buffer byteOffset byteLength) =
     (buffer < length h \<and> is_ArrayBuffer (h ! buffer))"
| "wf_obj h (MapObj entries) = distinct (map fst entries)"
| "wf_obj h (SetObj elems) = distinct elems"
| "wf_obj h (ArrayObj len ps) =
     (distinct (map fst ps) \<and> int len < 4294967296 \<and>
      (\<forall>key \<in> set (map fst ps). case array_index key of Some i \<Rightarrow> i < len | None \<Rightarrow> False))"
| "wf_obj h (PlainObj ps) = (distinct (map fst ps) \<and> ''__proto__'' \<notin> set (map fst ps))"
| "wf_obj h _ = True"

fun in_heap :: "heap \<Rightarrow> val \<Rightarrow> bool" where
  "in_heap h (VObj b) = (b < length h)"
| "in_heap h _ = True"

definition wf_heap :: "heap \<Rightarrow> bool" where
  "wf_heap h = (\<forall>ob \<in> set h. wf_obj h ob \<and> (\<forall>c \<in> set (children ob). in_heap h c))"

text \<open>The child node that stands for a value when the keys of the memory are \<open>K\<close>.\<close>

fun encode_child :: "val list \<Rightarrow> val \<Rightarrow> ChildSerialization" where
  "encode_child K VUndefined = Primitive ''undefined'' ''undefined''"
| "encode_child K VNull = Primitive ''null'' ''null''"
| "encode_child K (VBoolean b) = Primitive ''boolean'' (bool_toString b)"
| "encode_child K (VNumber x) = Primitive ''number'' (number_toString x)"
| "encode_child K (VBigInt i) = Primitive ''bigint'' (int_toString i)"
| "encode_child K (VString s) = Primitive ''string'' s"
| "encode_child K (VSymbol d) = Reference (indexOf K (VSymbol d))"
| "encode_child K (VObj a) = Reference (indexOf K (VObj a))"

text \<open>The record that describes an object when the keys of the memory are \<open>K\<close>.\<close>

fun record_of :: "val list \<Rightarrow> obj \<Rightarrow> ComplexSerialization" where
  "record_of K (BooleanObj b) = BooleanS (bool_toString b)"
| "record_of K (NumberObj x) = NumberS (number_toString x)"
| "record_of K (StringObj s) = StringS s"
| "record_of K (DateObj d) = (case d of Some isoText \<Rightarrow> DateS isoText | None \<Rightarrow> UnknownS [])"
| "record_of K (RegExpObj src flags) = RegExpS src flags"
| "record_of K (ArrayBufferObj bytes) =
     ArrayBufferS (int (length bytes)) (join_commas (map (\<lambda>b. nat_toString (unat b)) bytes))"
| "record_of K (ViewObj name buffer byteOffset byteLength) =
     ArrayBufferViewS name (int byteOffset) (int byteLength) (encode_child K (VObj buffer))"
| "record_of K (MapObj entries) =
     MapS (map (\<lambda>(k, v). (encode_child K k, encode_child K v)) entries)"
| "record_of K (SetObj elems) = SetS (map (encode_child K) elems)"
| "record_of K (ErrorObj name message) =
     ErrorS (if name \<in> set standard_error_names then name else ''Error'') message"
| "record_of K (ArrayObj len ps) =
     ArrayS (int len) (map (\<lambda>(k, v). (k, encode_child K v)) (own_properties (ArrayObj len ps)))"
| "record_of K (PlainObj ps) = ObjectS (map (\<lambda>(k, v). (k, encode_child K v)) ps)"
| "record_of K _ = UnknownS []"

text \<open>A memory entry is complete for the keys \<open>K\<close>: its key is a supported object of the
  heap, all of whose children are primitives or keys, and its record describes it.\<close>

definition child_ok :: "val list \<Rightarrow> val \<Rightarrow> bool" where
  "child_ok K c = (is_primitive c \<or> (c \<in> set K \<and> (\<exists>a. c = VObj a)))"

definition entry_complete :: "heap \<Rightarrow> val list \<Rightarrow> val \<times> ComplexSerialization \<Rightarrow> bool" where
  "entry_complete h K e =
     (\<exists>a. fst e = VObj a \<and> a < length h \<and> supported (h ! a) \<and>
          snd e = record_of K (h ! a) \<and> (\<forall>c \<in> set (children (h ! a)). child_ok K c))"

definition keys_ok :: "heap \<Rightarrow> Memory \<Rightarrow> bool" where
  "keys_ok h mem =
     (distinct (map fst mem) \<and> (\<forall>k \<in> set (map fst mem). \<exists>a. k = VObj a \<and> a < length h))"

fun is_view :: "obj \<Rightarrow> bool" where
  "is_view (ViewObj name buffer byteOffset byteLength) = True"
| "is_view _ = False"

text \<open>What a call of the encoder has done when it returns: it has appended entries to
  the memory, all of them complete, and its result stands for the value; and the first
  entry appended for a new object that is not a view is the entry of that object.\<close>

definition enc_post ::
  "heap \<Rightarrow> val \<Rightarrow> Memory \<Rightarrow> ChildSerialization \<Rightarrow> Memory \<Rightarrow> bool" where
  "enc_post h v mem node mem' =
     ((\<exists>new. mem' = mem @ new \<and> keys_ok h mem' \<and> node = encode_child (map fst mem') v \<and>
        child_ok (map fst mem') v \<and> (\<forall>e \<in> set new. entry_complete h (map fst mem') e)) \<and>
      (\<forall>a. v = VObj a \<and> v \<notin> set (map fst mem) \<and> a < length h \<and> \<not> is_view (h ! a) \<longrightarrow>
         (\<exists>r rest. mem' = mem @ (v, r) # rest)))"

definition enc_spec :: "heap \<Rightarrow> (val \<Rightarrow> Memory \<Rightarrow> (ChildSerialization \<times> Memory) result) \<Rightarrow> bool" where
  "enc_spec h f =
     (\<forall>v mem node mem'. keys_ok h mem \<longrightarrow> f v mem = Some (Inr (node, mem')) \<longrightarrow>
        enc_post h v mem node mem')"

text \<open>The child nodes that a record holds, and a node whose reference, if it is one,
  points into a record array of \<open>n\<close> records.\<close>

fun child_nodes :: "ComplexSerialization \<Rightarrow> ChildSerialization list" where
  "child_nodes (ArrayBufferViewS name byteOffset byteLength buffer) = [buffer]"
| "child_nodes (MapS mapData) = concat (map (\<lambda>(k, v). [k, v]) mapData)"
| "child_nodes (SetS setData) = setData"
| "child_nodes (ArrayS len properties) = map snd properties"
| "child_nodes (ObjectS properties) = map snd properties"
| "child_nodes _ = []"

fun ref_in_range :: "nat \<Rightarrow> ChildSerialization \<Rightarrow> bool" where
  "ref_in_range n (Reference i) = (0 \<le> i \<and> i < int n)"
| "ref_in_range n (Primitive t x) = True"

text \<open>The values that a traversal from \<open>v\<close> can come to.\<close>

inductive reachable :: "heap \<Rightarrow> val \<Rightarrow> val \<Rightarrow> bool" for h v where
  reachable_root: "reachable h v v"
| reachable_child:
    "reachable h v (VObj a) \<Longrightarrow> a < length h \<Longrightarrow> c \<in> set (children (h ! a)) \<Longrightarrow>
     reachable h v c"

text \<open>The values that the encoder rejects by name: a symbol, and an object of one of the
  six classes that it throws a \<open>TypeError\<close> for.\<close>

fun unsupported_class :: "obj \<Rightarrow> bool" where
  "unsupported_class WeakMapObj = True"
| "unsupported_class WeakSetObj = True"
| "unsupported_class PromiseObj = True"
| "unsupported_class WeakRefObj = True"
| "unsupported_class FinalizationRegistryObj = True"
| "unsupported_class FunctionObj = True"
| "unsupported_class _ = False"

fun unsupported_value :: "heap \<Rightarrow> val \<Rightarrow> bool" where
  "unsupported_value h (VSymbol d) = True"
| "unsupported_value h (VObj a) = (a < length h \<and> unsupported_class (h ! a))"
| "unsupported_value h _ = False"

fun is_TypeError :: "error \<Rightarrow> bool" where
  "is_TypeError (TypeError msg) = True"
| "is_TypeError _ = False"

text \<open>The errors that the encoder can throw for a value of a heap.\<close>

definition enc_error_ok :: "heap \<Rightarrow> val \<Rightarrow> error \<Rightarrow> bool" where
  "enc_error_ok h v e =
     (is_TypeError e \<or>
      (e = RangeError ''Invalid time value'' \<and>
       (\<exists>a. reachable h v (VObj a) \<and> a < length h \<and> h ! a = DateObj None)))"

text \<open>
  What a returning call of the decoder has done to the domain \<open>D\<close> of its memory: every
  id that it has put there is inside the record array, its record, if a view, names a
  typed array that the \<open>switch\<close> selects, and all references of its record are in the
  memory as well.
\<close>

fun record_ok :: "ComplexSerialization \<Rightarrow> bool" where
  "record_ok (ArrayBufferViewS name byteOffset byteLength buffer) =
     (case typedArrayConstructor name of Inr elementSize \<Rightarrow> True | Inl e \<Rightarrow> False)"
| "record_ok _ = True"

definition complete_id :: "ComplexSerialization list \<Rightarrow> int set \<Rightarrow> int \<Rightarrow> bool" where
  "complete_id objects D i =
     (0 \<le> i \<and> i < int (length objects) \<and> record_ok (objects ! nat i) \<and>
      (\<forall>j. Reference j \<in> set (child_nodes (objects ! nat i)) \<longrightarrow> j \<in> D))"

definition dec_post ::
  "ComplexSerialization list \<Rightarrow> ChildSerialization \<Rightarrow> int set \<Rightarrow> int set \<Rightarrow> bool" where
  "dec_post objects node D D' =
     (D \<subseteq> D' \<and> (\<forall>i. node = Reference i \<longrightarrow> i \<in> D') \<and>
      (\<forall>i \<in> D' - D. complete_id objects D' i))"

definition dec_spec ::
  "ComplexSerialization list \<Rightarrow>
   (ChildSerialization \<Rightarrow> decode_state \<Rightarrow> (val \<times> decode_state) result) \<Rightarrow> bool" where
  "dec_spec objects f =
     (\<forall>node st v st'. f node st = Some (Inr (v, st')) \<longrightarrow>
        dec_post objects node (dom (fst st)) (dom (fst st')))"

text \<open>The ids that decoding comes to from the top-level value.\<close>

inductive reached :: "ComplexSerialization list \<Rightarrow> ChildSerialization \<Rightarrow> int \<Rightarrow> bool"
  for objects top where
  reached_top: "top = Reference i \<Longrightarrow> reached objects top i"
| reached_child:
    "reached objects top i \<Longrightarrow> 0 \<le> i \<Longrightarrow> i < int (length objects) \<Longrightarrow>
     Reference j \<in> set (child_nodes (objects ! nat i)) \<Longrightarrow> reached objects top j"

text \<open>The case labels of the \<open>switch (typedArrayName)\<close>, and an id at which decoding
  must not return: it is outside the record array, or its record is a view whose name
  is none of the labels.\<close>

definition view_case_labels :: "string list" where
  "view_case_labels =
     [''Int8Array'', ''Uint8Array'', ''Uint8ClampedArray'', ''Int16Array'', ''Uint16Array'',
      ''Int32Array'', ''Uint32Array'', ''Float32Array'', ''Float64Array'', ''BigInt64Array'',
      ''BigUint64Array'', ''DataView'']"

definition rejected_at :: "ComplexSerialization list \<Rightarrow> int \<Rightarrow> bool" where
  "rejected_at objects i =
     (i < 0 \<or> int (length objects) \<le> i \<or>
      (case objects ! nat i of
         ArrayBufferViewS name byteOffset byteLength buffer \<Rightarrow> name \<notin> set view_case_labels
       | _ \<Rightarrow> False))"

section \<open>What the decoder is meant to build\<close>

text \<open>
  The decoded graph is described as the image of the source graph under a map \<open>f\<close> of
  values.  The image of an error has the name that the encoder writes, and the image of a
  view has the byte length that the typed array constructor computes when it is given
  the source byte length as its element count.
\<close>

fun addr_of :: "val \<Rightarrow> addr" where
  "addr_of (VObj a) = a"
| "addr_of _ = 0"

definition element_size :: "string \<Rightarrow> nat" where
  "element_size name = (case typedArrayConstructor name of Inr es \<Rightarrow> es | Inl e \<Rightarrow> 0)"

fun image_obj :: "(val \<Rightarrow> val) \<Rightarrow> obj \<Rightarrow> obj" where
  "image_obj f (ViewObj name buffer byteOffset byteLength) =
     ViewObj name (addr_of (f (VObj buffer))) byteOffset (byteLength * element_size name)"
| "image_obj f (MapObj entries) = MapObj (map (\<lambda>(k, v). (f k, f v)) entries)"
| "image_obj f (SetObj elems) = SetObj (map f elems)"
| "image_obj f (ErrorObj name message) =
     ErrorObj (if name \<in> set standard_error_names then name else ''Error'') message"
| "image_obj f (ArrayObj len ps) = ArrayObj len (map (\<lambda>(k, v). (k, f v)) ps)"
| "image_obj f (PlainObj ps) = PlainObj (map (\<lambda>(k, v). (k, f v)) ps)"
| "image_obj f ob = ob"

text \<open>The image of a source value when the encoder's keys are \<open>K\<close> and the decoder's
  memory is \<open>m\<close>: the value that the memory holds for its id.\<close>

definition image_val :: "DecodeMemory \<Rightarrow> val list \<Rightarrow> val \<Rightarrow> val" where
  "image_val m K v =
     (if is_primitive v then v
      else case m (indexOf K v) of Some w \<Rightarrow> w | None \<Rightarrow> VUndefined)"

text \<open>An envelope that describes the heap \<open>h\<close> under the keys \<open>K\<close>.\<close>

definition canonical :: "heap \<Rightarrow> val list \<Rightarrow> ComplexSerialization list \<Rightarrow> bool" where
  "canonical h K objects =
     (distinct K \<and>
      (\<forall>k \<in> set K. \<exists>a. k = VObj a \<and> a < length h \<and> supported (h ! a) \<and>
         (\<forall>c \<in> set (children (h ! a)). child_ok K c)) \<and>
      objects = map (\<lambda>k. record_of K (h ! addr_of k)) K)"

text \<open>
  The state of the decoder while it decodes such an envelope: the memory holds
  addresses of the new heap, different ones for different ids.  An id is done when the
  object at its address is the image of its source object and all children of that are
  registered.  A call makes the state grow: the memory is extended, the heap is
  appended to, and every id that has come into the memory is done.
\<close>

definition dinv :: "val list \<Rightarrow> decode_state \<Rightarrow> bool" where
  "dinv K s =
     ((\<forall>i w. fst s i = Some w \<longrightarrow>
         0 \<le> i \<and> i < int (length K) \<and> (\<exists>a. w = VObj a \<and> a < length (snd s))) \<and>
      inj_on (fst s) (dom (fst s)))"

definition registered :: "val list \<Rightarrow> DecodeMemory \<Rightarrow> val \<Rightarrow> bool" where
  "registered K m c = (is_primitive c \<or> (c \<in> set K \<and> indexOf K c \<in> dom m))"

definition done_id :: "heap \<Rightarrow> val list \<Rightarrow> decode_state \<Rightarrow> int \<Rightarrow> bool" where
  "done_id h K s i =
     (\<exists>a a'. 0 \<le> i \<and> i < int (length K) \<and> K ! nat i = VObj a \<and> fst s i = Some (VObj a') \<and>
        snd s ! a' = image_obj (image_val (fst s) K) (h ! a) \<and>
        (\<forall>c \<in> set (children (h ! a)). registered K (fst s) c))"

definition grows :: "heap \<Rightarrow> val list \<Rightarrow> decode_state \<Rightarrow> decode_state \<Rightarrow> bool" where
  "grows h K s s' =
     (dinv K s' \<and> fst s \<subseteq>\<^sub>m fst s' \<and> (\<exists>new. snd s' = snd s @ new) \<and>
      (\<forall>i \<in> dom (fst s') - dom (fst s).
         done_id h K s' i \<and> (\<exists>a'. fst s' i = Some (VObj a') \<and> length (snd s) \<le> a')))"

definition dec_ok ::
  "heap \<Rightarrow> val list \<Rightarrow>
   (ChildSerialization \<Rightarrow> decode_state \<Rightarrow> (val \<times> decode_state) result) \<Rightarrow> bool" where
  "dec_ok h K f =
     (\<forall>v s w s'. child_ok K v \<longrightarrow> dinv K s \<longrightarrow> f (encode_child K v) s = Some (Inr (w, s')) \<longrightarrow>
        grows h K s s' \<and> w = image_val (fst s') K v \<and> registered K (fst s') v)"

text \<open>Setting a property where that does not throw.\<close>

definition put_property :: "obj \<Rightarrow> string \<times> val \<Rightarrow> obj" where
  "put_property ob kv = (case set_property ob (fst kv) (snd kv) of Inr ob' \<Rightarrow> ob' | Inl e \<Rightarrow> ob)"

text \<open>
  The decoded heap \<open>h'\<close> with the value \<open>v'\<close> is the image of the source graph under
  \<open>f\<close>: primitives stay, different values that can be reached from \<open>v\<close> have different
  images, and the image of every object that can be reached is an object of \<open>h'\<close> that
  has the same class and the same fields, with the images of its children as children.
\<close>

definition graph_image :: "heap \<Rightarrow> val \<Rightarrow> heap \<Rightarrow> val \<Rightarrow> (val \<Rightarrow> val) \<Rightarrow> bool" where
  "graph_image h v h' v' f =
     (v' = f v \<and> (\<forall>c. is_primitive c \<longrightarrow> f c = c) \<and> inj_on f {w. reachable h v w} \<and>
      (\<forall>a. reachable h v (VObj a) \<longrightarrow>
         (\<exists>a'. f (VObj a) = VObj a' \<and> a' < length h' \<and> h' ! a' = image_obj f (h ! a))))"

text \<open>A position in a graph: the value that a path of child indices leads to.\<close>

fun follow :: "heap \<Rightarrow> val \<Rightarrow> nat list \<Rightarrow> val option" where
  "follow h v [] = Some v"
| "follow h (VObj a) (i # p) =
     (if a < length h \<and> i < length (children (h ! a))
      then follow h (children (h ! a) ! i) p else None)"
| "follow h v (i # p) = None"

section \<open>Auxiliary facts\<close>

lemma and_then_Inr:
  "and_then m f = Some (Inr y) \<Longrightarrow> \<exists>x. m = Some (Inr x) \<and> f x = Some (Inr y)"
  by (cases m; simp) (rename_tac r, case_tac r; simp)

lemma for_of_invariant:
  assumes run: "for_of body xs s = Some (Inr s')"
    and init: "I seen s"
    and step: "\<And>x pre t t'. x \<in> set xs \<Longrightarrow> I pre t \<Longrightarrow> body x t = Some (Inr t') \<Longrightarrow> I (pre @ [x]) t'"
  shows "I (seen @ xs) s'"
  using run init step
proof (induction xs arbitrary: s seen)
  case Nil
  then show ?case by simp
next
  case (Cons x xs)
  from Cons.prems(1) obtain t where t: "body x s = Some (Inr t)"
    and rest: "for_of body xs t = Some (Inr s')"
    by (auto dest: and_then_Inr)
  have "I (seen @ [x]) t" using Cons.prems(3)[OF _ Cons.prems(2) t] by simp
  from Cons.IH[OF rest this] Cons.prems(3) show ?case by simp
qed

lemma indexOf_nonneg_iff: "0 \<le> indexOf xs x \<longleftrightarrow> x \<in> set xs"
  by (induction xs) (auto simp: Let_def)

lemma indexOf_absent: "x \<notin> set xs \<Longrightarrow> indexOf xs x = - 1"
  by (induction xs) (auto simp: Let_def)

lemma indexOf_less: "x \<in> set xs \<Longrightarrow> indexOf xs x < int (length xs)"
  by (induction xs) (auto simp: Let_def)

lemma indexOf_nth: "x \<in> set xs \<Longrightarrow> xs ! nat (indexOf xs x) = x"
proof (induction xs)
  case (Cons y ys)
  show ?case
  proof (cases "x = y")
    case False
    with Cons have m: "x \<in> set ys" by simp
    then have "0 \<le> indexOf ys x" by (simp add: indexOf_nonneg_iff)
    with False Cons.IH[OF m] show ?thesis by (simp add: Let_def nat_add_distrib)
  qed simp
qed simp

lemma indexOf_append_present: "x \<in> set xs \<Longrightarrow> indexOf (xs @ ys) x = indexOf xs x"
proof (induction xs)
  case (Cons y ys')
  then show ?case by (auto simp: Let_def)
qed simp

lemma indexOf_append_new: "x \<notin> set xs \<Longrightarrow> indexOf (xs @ x # ys) x = int (length xs)"
  by (induction xs) (auto simp: Let_def)

lemma indexOf_distinct_nth: "distinct xs \<Longrightarrow> i < length xs \<Longrightarrow> indexOf xs (xs ! i) = int i"
proof (induction xs arbitrary: i)
  case (Cons y ys)
  then show ?case by (cases i) (auto simp: Let_def)
qed simp

lemma memory_set_absent: "v \<notin> set (map fst mem) \<Longrightarrow> memory_set mem v s = mem @ [(v, s)]"
  by (induction mem) auto

lemma push_properties_at:
  "v \<notin> set (map fst mem0) \<Longrightarrow>
   push_properties (mem0 @ (v, r) # rest) v e =
     mem0 @ (v, (case r of ArrayS n ps \<Rightarrow> ArrayS n (ps @ [e]) | ObjectS ps \<Rightarrow> ObjectS (ps @ [e]) | _ \<Rightarrow> r)) # rest"
  by (induction mem0) auto

lemma push_mapData_at:
  "v \<notin> set (map fst mem0) \<Longrightarrow>
   push_mapData (mem0 @ (v, r) # rest) v e =
     mem0 @ (v, (case r of MapS es \<Rightarrow> MapS (es @ [e]) | _ \<Rightarrow> r)) # rest"
  by (induction mem0) auto

lemma push_setData_at:
  "v \<notin> set (map fst mem0) \<Longrightarrow>
   push_setData (mem0 @ (v, r) # rest) v e =
     mem0 @ (v, (case r of SetS es \<Rightarrow> SetS (es @ [e]) | _ \<Rightarrow> r)) # rest"
  by (induction mem0) auto

lemma encode_child_mono:
  "child_ok K c \<Longrightarrow> encode_child (K @ K') c = encode_child K c"
  by (cases c) (auto simp: child_ok_def indexOf_append_present)

lemma child_ok_mono: "child_ok K c \<Longrightarrow> child_ok (K @ K') c"
  by (auto simp: child_ok_def)

lemma record_of_mono:
  assumes "\<forall>c \<in> set (children ob). child_ok K c"
  shows "record_of (K @ K') ob = record_of K ob"
proof (cases ob)
  case (ViewObj name b off len)
  then show ?thesis using assms encode_child_mono[of K "VObj b" K'] by simp
qed (use assms in \<open>auto simp: encode_child_mono split: option.splits\<close>)

lemma entry_complete_mono:
  "entry_complete h K e \<Longrightarrow> entry_complete h (K @ K') e"
  unfolding entry_complete_def
  by (metis child_ok_mono record_of_mono)

lemma enc_loop:
  assumes body: "\<And>x m m2. x \<in> set xs \<Longrightarrow> keys_ok h m \<Longrightarrow> body x m = Some (Inr m2) \<Longrightarrow>
        \<exists>new. m2 = push (m @ new) v (emit (map fst (m @ new)) x) \<and> keys_ok h (m @ new) \<and>
          (\<forall>e \<in> set new. entry_complete h (map fst (m @ new)) e) \<and>
          (\<forall>c \<in> set (kids x). child_ok (map fst (m @ new)) c)"
    and push: "\<And>m0 qs rest e. v \<notin> set (map fst m0) \<Longrightarrow>
        push (m0 @ (v, R qs) # rest) v e = m0 @ (v, R (qs @ [e])) # rest"
    and emit_mono: "\<And>K K' x. \<forall>c \<in> set (kids x). child_ok K c \<Longrightarrow> emit (K @ K') x = emit K x"
    and run: "for_of body xs (mem0 @ [(v, R [])]) = Some (Inr m')"
    and inv0: "keys_ok h (mem0 @ [(v, R [])])"
  shows "\<exists>rest. m' = mem0 @ (v, R (map (emit (map fst m')) xs)) # rest \<and> keys_ok h m' \<and>
           (\<forall>e \<in> set rest. entry_complete h (map fst m') e) \<and>
           (\<forall>x \<in> set xs. \<forall>c \<in> set (kids x). child_ok (map fst m') c)"
proof -
  define I where "I = (\<lambda>pre m. \<exists>rest. m = mem0 @ (v, R (map (emit (map fst m)) pre)) # rest \<and>
           keys_ok h m \<and> (\<forall>e \<in> set rest. entry_complete h (map fst m) e) \<and>
           (\<forall>x \<in> set pre. \<forall>c \<in> set (kids x). child_ok (map fst m) c))"
  have vnew: "v \<notin> set (map fst mem0)" using inv0 by (auto simp: keys_ok_def)
  have init: "I [] (mem0 @ [(v, R [])])" using inv0 by (simp add: I_def)
  have step: "I (pre @ [x]) t'" if x: "x \<in> set xs" and I: "I pre t" and b: "body x t = Some (Inr t')"
    for x pre t t'
  proof -
    from I obtain rest where t: "t = mem0 @ (v, R (map (emit (map fst t)) pre)) # rest"
      and ok: "keys_ok h t" and comp: "\<forall>e \<in> set rest. entry_complete h (map fst t) e"
      and kids: "\<forall>x \<in> set pre. \<forall>c \<in> set (kids x). child_ok (map fst t) c"
      unfolding I_def by blast
    from body[OF x ok b] obtain new where
      t': "t' = push (t @ new) v (emit (map fst (t @ new)) x)" and ok': "keys_ok h (t @ new)"
      and comp': "\<forall>e \<in> set new. entry_complete h (map fst (t @ new)) e"
      and kids': "\<forall>c \<in> set (kids x). child_ok (map fst (t @ new)) c" by blast
    let ?K = "map fst t" and ?K' = "map fst (t @ new)"
    have K': "?K' = ?K @ map fst new" by simp
    have tn: "t @ new = mem0 @ (v, R (map (emit ?K) pre)) # (rest @ new)"
      by (subst t) simp
    have t'2: "t' = mem0 @ (v, R (map (emit ?K) pre @ [emit ?K' x])) # (rest @ new)"
      unfolding t' by (subst tn) (rule push[OF vnew])
    have keys': "map fst t' = ?K'" by (subst t'2, subst tn) simp
    have pre_eq: "map (emit ?K) pre = map (emit ?K') pre"
      using kids emit_mono[of _ ?K "map fst new"] unfolding K' by (auto intro!: map_cong)
    have "t' = mem0 @ (v, R (map (emit (map fst t')) (pre @ [x]))) # (rest @ new)"
      unfolding keys' using t'2 pre_eq by simp
    moreover have "keys_ok h t'" using ok' keys' by (simp add: keys_ok_def)
    moreover have "\<forall>e \<in> set (rest @ new). entry_complete h (map fst t') e"
      unfolding keys' using comp comp' entry_complete_mono[of h ?K _ "map fst new"] K' by auto
    moreover have "\<forall>y \<in> set (pre @ [x]). \<forall>c \<in> set (kids y). child_ok (map fst t') c"
      unfolding keys' using kids kids' child_ok_mono[of ?K _ "map fst new"] K' by auto
    ultimately show ?thesis unfolding I_def by blast
  qed
  from for_of_invariant[where I = I and seen = "[]", OF run init step]
  show ?thesis by (simp add: I_def)
qed

lemma enc_specD:
  "enc_spec h f \<Longrightarrow> keys_ok h mem \<Longrightarrow> f v mem = Some (Inr (node, mem')) \<Longrightarrow>
   \<exists>new. mem' = mem @ new \<and> keys_ok h mem' \<and> node = encode_child (map fst mem') v \<and>
        child_ok (map fst mem') v \<and> (\<forall>e \<in> set new. entry_complete h (map fst mem') e)"
  unfolding enc_spec_def enc_post_def by blast

lemma body_properties:
  assumes spec: "enc_spec h f" and ok: "keys_ok h m"
    and b: "(\<lambda>(k, c) m. and_then (f c m) (\<lambda>(out, m1). Some (Inr (push_properties m1 v (k, out))))) x m
            = Some (Inr m2)"
  shows "\<exists>new. m2 = push_properties (m @ new) v ((\<lambda>K (k, c). (k, encode_child K c)) (map fst (m @ new)) x) \<and>
          keys_ok h (m @ new) \<and> (\<forall>e \<in> set new. entry_complete h (map fst (m @ new)) e) \<and>
          (\<forall>c \<in> set ((\<lambda>(k, c). [c]) x). child_ok (map fst (m @ new)) c)"
proof -
  obtain k c where x: "x = (k, c)" by (cases x)
  from b obtain out m1 where r: "f c m = Some (Inr (out, m1))"
    and m2: "m2 = push_properties m1 v (k, out)"
    unfolding x by (auto dest!: and_then_Inr)
  from enc_specD[OF spec ok r] obtain new where "m1 = m @ new" "keys_ok h m1"
    "out = encode_child (map fst m1) c" "child_ok (map fst m1) c"
    "\<forall>e \<in> set new. entry_complete h (map fst m1) e" by blast
  then show ?thesis unfolding x m2 by auto
qed

lemma body_set:
  assumes spec: "enc_spec h f" and ok: "keys_ok h m"
    and b: "(\<lambda>c m. and_then (f c m) (\<lambda>(out, m1). Some (Inr (push_setData m1 v out)))) x m
            = Some (Inr m2)"
  shows "\<exists>new. m2 = push_setData (m @ new) v (encode_child (map fst (m @ new)) x) \<and>
          keys_ok h (m @ new) \<and> (\<forall>e \<in> set new. entry_complete h (map fst (m @ new)) e) \<and>
          (\<forall>c \<in> set ((\<lambda>c. [c]) x). child_ok (map fst (m @ new)) c)"
proof -
  from b obtain out m1 where r: "f x m = Some (Inr (out, m1))"
    and m2: "m2 = push_setData m1 v out"
    by (auto dest!: and_then_Inr)
  from enc_specD[OF spec ok r] obtain new where "m1 = m @ new" "keys_ok h m1"
    "out = encode_child (map fst m1) x" "child_ok (map fst m1) x"
    "\<forall>e \<in> set new. entry_complete h (map fst m1) e" by blast
  then show ?thesis unfolding m2 by auto
qed

lemma body_map:
  assumes spec: "enc_spec h f" and ok: "keys_ok h m"
    and b: "(\<lambda>(key, val) m. and_then (f key m) (\<lambda>(sk, m1). and_then (f val m1)
               (\<lambda>(sv, m2). Some (Inr (push_mapData m2 v (sk, sv)))))) x m = Some (Inr m3)"
  shows "\<exists>new. m3 = push_mapData (m @ new) v
             ((\<lambda>K (k, c). (encode_child K k, encode_child K c)) (map fst (m @ new)) x) \<and>
          keys_ok h (m @ new) \<and> (\<forall>e \<in> set new. entry_complete h (map fst (m @ new)) e) \<and>
          (\<forall>c \<in> set ((\<lambda>(k, c). [k, c]) x). child_ok (map fst (m @ new)) c)"
proof -
  obtain k c where x: "x = (k, c)" by (cases x)
  from b obtain sk m1 where r1: "f k m = Some (Inr (sk, m1))"
    and b2: "and_then (f c m1) (\<lambda>(sv, m2). Some (Inr (push_mapData m2 v (sk, sv)))) = Some (Inr m3)"
    unfolding x by (auto dest!: and_then_Inr)
  from b2 obtain sv m2 where r2: "f c m1 = Some (Inr (sv, m2))"
    and m3: "m3 = push_mapData m2 v (sk, sv)"
    by (auto dest!: and_then_Inr)
  from enc_specD[OF spec ok r1] obtain new1 where 1: "m1 = m @ new1" "keys_ok h m1"
    "sk = encode_child (map fst m1) k" "child_ok (map fst m1) k"
    "\<forall>e \<in> set new1. entry_complete h (map fst m1) e" by blast
  from enc_specD[OF spec 1(2) r2] obtain new2 where 2: "m2 = m1 @ new2" "keys_ok h m2"
    "sv = encode_child (map fst m2) c" "child_ok (map fst m2) c"
    "\<forall>e \<in> set new2. entry_complete h (map fst m2) e" by blast
  have K2: "map fst m2 = map fst m1 @ map fst new2" using 2(1) by simp
  have sk2: "sk = encode_child (map fst m2) k"
    unfolding K2 using 1(3,4) by (simp add: encode_child_mono)
  have ck2: "child_ok (map fst m2) k" unfolding K2 using 1(4) by (rule child_ok_mono)
  have e2: "\<forall>e \<in> set (new1 @ new2). entry_complete h (map fst m2) e"
    using 1(5) 2(5) entry_complete_mono[of h "map fst m1" _ "map fst new2"] K2 by auto
  have "m2 = m @ (new1 @ new2)" using 1(1) 2(1) by simp
  with sk2 ck2 e2 2 show ?thesis unfolding x m3
    by (intro exI[of _ "new1 @ new2"]) auto
qed

lemma enc_deep:
  assumes body: "\<And>x m m2. x \<in> set xs \<Longrightarrow> keys_ok h m \<Longrightarrow> body x m = Some (Inr m2) \<Longrightarrow>
        \<exists>new. m2 = push (m @ new) (VObj a) (emit (map fst (m @ new)) x) \<and> keys_ok h (m @ new) \<and>
          (\<forall>e \<in> set new. entry_complete h (map fst (m @ new)) e) \<and>
          (\<forall>c \<in> set (kids x). child_ok (map fst (m @ new)) c)"
    and push: "\<And>m0 qs rest e. VObj a \<notin> set (map fst m0) \<Longrightarrow>
        push (m0 @ (VObj a, R qs) # rest) (VObj a) e = m0 @ (VObj a, R (qs @ [e])) # rest"
    and emit_mono: "\<And>K K' x. \<forall>c \<in> set (kids x). child_ok K c \<Longrightarrow> emit (K @ K') x = emit K x"
    and rec: "\<And>K. record_of K (h ! a) = R (map (emit K) xs)"
    and kids: "set (children (h ! a)) \<subseteq> (\<Union>x \<in> set xs. set (kids x))"
    and sup: "supported (h ! a)" and a: "a < length h"
    and fresh: "\<not> memory_has mem (VObj a)" and ok: "keys_ok h mem"
    and run: "and_then (for_of body xs (memory_set mem (VObj a) (R [])))
                (\<lambda>mem''. Some (Inr (reference_to mem'' (VObj a), mem''))) = Some (Inr (node, mem'))"
  shows "enc_post h (VObj a) mem node mem'"
proof -
  have fresh': "VObj a \<notin> set (map fst mem)" using fresh by (simp add: memory_has_def)
  have ms: "memory_set mem (VObj a) (R []) = mem @ [(VObj a, R [])]"
    by (rule memory_set_absent[OF fresh'])
  from run have loop: "for_of body xs (mem @ [(VObj a, R [])]) = Some (Inr mem')"
    and node: "node = reference_to mem' (VObj a)"
    unfolding ms by (auto dest!: and_then_Inr)
  have ok0: "keys_ok h (mem @ [(VObj a, R [])])"
    using ok fresh' a by (auto simp: keys_ok_def)
  from enc_loop[where kids = kids and body = body and push = push and emit = emit and R = R
      and h = h and xs = xs and v = "VObj a" and ?mem0.0 = mem and m' = mem',
      OF body push emit_mono loop ok0]
  obtain rest where m': "mem' = mem @ (VObj a, R (map (emit (map fst mem')) xs)) # rest"
    and ok': "keys_ok h mem'" and comp: "\<forall>e \<in> set rest. entry_complete h (map fst mem') e"
    and ch: "\<forall>x \<in> set xs. \<forall>c \<in> set (kids x). child_ok (map fst mem') c"
    using fresh' by blast
  have inK: "VObj a \<in> set (map fst mem')" by (subst m') simp
  have "entry_complete h (map fst mem') (VObj a, R (map (emit (map fst mem')) xs))"
    unfolding entry_complete_def using a sup rec ch kids by fastforce
  with comp have "\<forall>e \<in> set ((VObj a, R (map (emit (map fst mem')) xs)) # rest).
      entry_complete h (map fst mem') e" by simp
  moreover have "node = encode_child (map fst mem') (VObj a)"
    using node by (simp add: reference_to_def)
  moreover have "child_ok (map fst mem') (VObj a)" using inK by (simp add: child_ok_def)
  ultimately have "\<exists>new. mem' = mem @ new \<and> keys_ok h mem' \<and>
      node = encode_child (map fst mem') (VObj a) \<and> child_ok (map fst mem') (VObj a) \<and>
      (\<forall>e \<in> set new. entry_complete h (map fst mem') e)" using m' ok' by blast
  moreover have "\<exists>r rest. mem' = mem @ (VObj a, r) # rest" using m' by blast
  ultimately show ?thesis unfolding enc_post_def by blast
qed

lemma enc_leaf:
  assumes rec: "\<And>K. record_of K (h ! a) = r"
    and kids: "children (h ! a) = []"
    and sup: "supported (h ! a)" and a: "a < length h"
    and fresh: "\<not> memory_has mem (VObj a)" and ok: "keys_ok h mem"
    and run: "(let mem'' = memory_set mem (VObj a) r
               in Some (Inr (reference_to mem'' (VObj a), mem''))) = Some (Inr (node, mem'))"
  shows "enc_post h (VObj a) mem node mem'"
proof -
  have fresh': "VObj a \<notin> set (map fst mem)" using fresh by (simp add: memory_has_def)
  have ms: "memory_set mem (VObj a) r = mem @ [(VObj a, r)]"
    by (rule memory_set_absent[OF fresh'])
  from run have m': "mem' = mem @ [(VObj a, r)]" and node: "node = reference_to mem' (VObj a)"
    unfolding ms by (auto simp: Let_def)
  have "keys_ok h mem'" using ok fresh' a m' by (auto simp: keys_ok_def)
  moreover have "entry_complete h (map fst mem') (VObj a, r)"
    unfolding entry_complete_def using a sup rec kids by auto
  moreover have "node = encode_child (map fst mem') (VObj a)"
    using node by (simp add: reference_to_def)
  moreover have "child_ok (map fst mem') (VObj a)" using m' by (simp add: child_ok_def)
  ultimately have "\<exists>new. mem' = mem @ new \<and> keys_ok h mem' \<and>
      node = encode_child (map fst mem') (VObj a) \<and> child_ok (map fst mem') (VObj a) \<and>
      (\<forall>e \<in> set new. entry_complete h (map fst mem') e)" using m' by auto
  moreover have "\<exists>r rest. mem' = mem @ (VObj a, r) # rest" using m' by blast
  ultimately show ?thesis unfolding enc_post_def by blast
qed

lemma enc_spec_Internal:
  assumes wf: "wf_heap h"
  shows "enc_spec h (structuredSerializeInternal n h)"
  supply structuredSerializeInternal.simps [simp]
proof (induction n)
  case 0
  show ?case by (simp add: enc_spec_def)
next
  case (Suc n)
  let ?f = "structuredSerializeInternal n h"
  show ?case unfolding enc_spec_def
  proof (intro allI impI)
    fix v mem node mem'
    assume ok: "keys_ok h mem"
      and run: "structuredSerializeInternal (Suc n) h v mem = Some (Inr (node, mem'))"
    show "enc_post h v mem node mem'"
    proof (cases "memory_has mem v")
      case True
      then have vin: "v \<in> set (map fst mem)" by (simp add: memory_has_def)
      with ok obtain a where "v = VObj a" unfolding keys_ok_def by blast
      note this vin
      moreover from run True have "node = reference_to mem v" "mem' = mem" by auto
      ultimately show ?thesis using ok
        by (auto simp: enc_post_def reference_to_def child_ok_def)
    next
      case fresh: False
      show ?thesis
      proof (cases v)
        case (VObj a)
        from run fresh VObj have a: "a < length h" by (auto split: if_splits)
        from wf a have wfo: "wf_obj h (h ! a)" by (simp add: wf_heap_def)
        note f = fresh[unfolded VObj]
        have L: "enc_post h v mem node mem'"
          if "\<And>K. record_of K (h ! a) = r" "children (h ! a) = []" "supported (h ! a)"
            "Some (Inr (reference_to (memory_set mem (VObj a) r) (VObj a),
                memory_set mem (VObj a) r)) = Some (Inr (node, mem'))" for r
          unfolding VObj using that a f ok
          by (intro enc_leaf[where r = r]) (auto simp: Let_def)
        show ?thesis
        proof (cases "h ! a")
          case (ViewObj name buffer off len)
          from wfo ViewObj obtain bytes where b: "buffer < length h" "h ! buffer = ArrayBufferObj bytes"
            by (cases "h ! buffer") auto
          from run fresh VObj a ViewObj obtain bs m1 where
            r1: "?f (VObj buffer) mem = Some (Inr (bs, m1))"
            and r2: "(let mem'' = memory_set m1 (VObj a) (ArrayBufferViewS name (int off) (int len) bs)
                      in Some (Inr (reference_to mem'' (VObj a), mem''))) = Some (Inr (node, mem'))"
            by (auto simp: Let_def dest!: and_then_Inr)
          from enc_specD[OF Suc.IH ok r1] obtain new where 1: "m1 = mem @ new" "keys_ok h m1"
            "bs = encode_child (map fst m1) (VObj buffer)" "child_ok (map fst m1) (VObj buffer)"
            "\<forall>e \<in> set new. entry_complete h (map fst m1) e" by blast
          have ne: "a \<noteq> buffer" using ViewObj b by auto
          have m1: "m1 = mem \<or> m1 = mem @ [(VObj buffer, record_of [] (h ! buffer))]"
          proof (cases "memory_has mem (VObj buffer)")
            case True
            with r1 show ?thesis by (cases n) auto
          next
            case False
            then have "VObj buffer \<notin> set (map fst mem)" by (simp add: memory_has_def)
            with False r1 b show ?thesis
              by (cases n) (auto simp: Let_def memory_set_absent)
          qed
          have notin: "VObj a \<notin> set (map fst m1)"
            using m1 f ne by (auto simp: memory_has_def)
          let ?r = "ArrayBufferViewS name (int off) (int len) bs"
          have ms: "memory_set m1 (VObj a) ?r = m1 @ [(VObj a, ?r)]"
            by (rule memory_set_absent[OF notin])
          from r2 have m': "mem' = m1 @ [(VObj a, ?r)]"
            and node: "node = reference_to mem' (VObj a)"
            unfolding ms by (auto simp: Let_def)
          have K': "map fst mem' = map fst m1 @ [VObj a]" using m' by simp
          have ok': "keys_ok h mem'" using 1(2) notin a m' by (auto simp: keys_ok_def)
          have cb: "child_ok (map fst mem') (VObj buffer)"
            unfolding K' using 1(4) by (rule child_ok_mono)
          have bs': "bs = encode_child (map fst mem') (VObj buffer)"
            unfolding K' using 1(3,4) by (simp only: encode_child_mono)
          have ec: "entry_complete h (map fst mem') (VObj a, ?r)"
            unfolding entry_complete_def using a ViewObj cb bs' by simp
          have old: "\<forall>e \<in> set new. entry_complete h (map fst mem') e"
            unfolding K' using 1(5) entry_complete_mono by blast
          have "mem' = mem @ (new @ [(VObj a, ?r)])" using m' 1(1) by simp
          moreover have "node = encode_child (map fst mem') (VObj a)"
            using node by (simp add: reference_to_def)
          moreover have "child_ok (map fst mem') (VObj a)" using K' by (simp add: child_ok_def)
          moreover have "\<forall>e \<in> set (new @ [(VObj a, ?r)]). entry_complete h (map fst mem') e"
            using old ec by simp
          ultimately show ?thesis unfolding enc_post_def VObj using ok' ViewObj by auto
        next
          case (BooleanObj x)
          with run fresh VObj a show ?thesis by (intro L) (auto simp: Let_def)
        next
          case (NumberObj x)
          with run fresh VObj a show ?thesis by (intro L) (auto simp: Let_def)
        next
          case (StringObj x)
          with run fresh VObj a show ?thesis by (intro L) (auto simp: Let_def)
        next
          case (DateObj d)
          show ?thesis
          proof (cases d)
            case None
            with run fresh VObj a DateObj show ?thesis by (simp add: Let_def)
          next
            case (Some t)
            with run fresh VObj a DateObj show ?thesis by (intro L) (auto simp: Let_def)
          qed
        next
          case (RegExpObj x y)
          with run fresh VObj a show ?thesis by (intro L) (auto simp: Let_def)
        next
          case (ArrayBufferObj x)
          with run fresh VObj a show ?thesis by (intro L) (auto simp: Let_def)
        next
          case (ErrorObj x y)
          with run fresh VObj a show ?thesis by (intro L) (auto simp: Let_def)
        next
          case (PlainObj ps)
          show ?thesis unfolding VObj
          proof (rule enc_deep[where R = ObjectS and emit = "\<lambda>K (k, c). (k, encode_child K c)"
                and kids = "\<lambda>(k, c). [c]" and push = push_properties and xs = ps,
                OF body_properties[OF Suc.IH]])
            show "and_then (for_of (\<lambda>(k, c) m. and_then (?f c m)
                     (\<lambda>(out, m1). Some (Inr (push_properties m1 (VObj a) (k, out))))) ps
                     (memory_set mem (VObj a) (ObjectS [])))
                   (\<lambda>mem''. Some (Inr (reference_to mem'' (VObj a), mem''))) = Some (Inr (node, mem'))"
              using run fresh VObj a PlainObj by (simp add: Let_def)
          qed (use PlainObj a f ok in \<open>auto simp: push_properties_at encode_child_mono\<close>)
        next
          case (ArrayObj len ps)
          show ?thesis unfolding VObj
          proof (rule enc_deep[where R = "ArrayS (int len)"
                and emit = "\<lambda>K (k, c). (k, encode_child K c)"
                and kids = "\<lambda>(k, c). [c]" and push = push_properties
                and xs = "ps @ [(''length'', VNumber (Finite (int len)))]",
                OF body_properties[OF Suc.IH]])
            show "and_then (for_of (\<lambda>(k, c) m. and_then (?f c m)
                     (\<lambda>(out, m1). Some (Inr (push_properties m1 (VObj a) (k, out)))))
                     (ps @ [(''length'', VNumber (Finite (int len)))])
                     (memory_set mem (VObj a) (ArrayS (int len) [])))
                   (\<lambda>mem''. Some (Inr (reference_to mem'' (VObj a), mem''))) = Some (Inr (node, mem'))"
              using run fresh VObj a ArrayObj by (simp add: Let_def)
          qed (use ArrayObj a f ok in \<open>auto simp: push_properties_at encode_child_mono\<close>)
        next
          case (SetObj es)
          show ?thesis unfolding VObj
          proof (rule enc_deep[where R = SetS and emit = encode_child
                and kids = "\<lambda>c. [c]" and push = push_setData and xs = es,
                OF body_set[OF Suc.IH]])
            show "and_then (for_of (\<lambda>c m. and_then (?f c m)
                     (\<lambda>(out, m1). Some (Inr (push_setData m1 (VObj a) out)))) es
                     (memory_set mem (VObj a) (SetS [])))
                   (\<lambda>mem''. Some (Inr (reference_to mem'' (VObj a), mem''))) = Some (Inr (node, mem'))"
              using run fresh VObj a SetObj by (simp add: Let_def)
          qed (use SetObj a f ok in \<open>auto simp: push_setData_at encode_child_mono\<close>)
        next
          case (MapObj es)
          show ?thesis unfolding VObj
          proof (rule enc_deep[where R = MapS
                and emit = "\<lambda>K (k, c). (encode_child K k, encode_child K c)"
                and kids = "\<lambda>(k, c). [k, c]" and push = push_mapData and xs = es,
                OF body_map[OF Suc.IH]])
            show "and_then (for_of (\<lambda>(key, val) m. and_then (?f key m) (\<lambda>(sk, m1).
                     and_then (?f val m1)
                       (\<lambda>(sv, m2). Some (Inr (push_mapData m2 (VObj a) (sk, sv)))))) es
                     (memory_set mem (VObj a) (MapS [])))
                   (\<lambda>mem''. Some (Inr (reference_to mem'' (VObj a), mem''))) = Some (Inr (node, mem'))"
              using run fresh VObj a MapObj by (simp add: Let_def)
          qed (use MapObj a f ok in \<open>auto simp: push_mapData_at encode_child_mono\<close>)
        qed (use run fresh VObj a in \<open>auto simp: Let_def\<close>)
      qed (use run fresh ok in \<open>auto simp: enc_post_def child_ok_def\<close>)
    qed
  qed
qed

section \<open>The encoder returns\<close>

lemma and_then_None:
  "and_then m f = None \<Longrightarrow> m = None \<or> (\<exists>x. m = Some (Inr x) \<and> f x = None)"
  by (cases m; simp) (rename_tac r, case_tac r; simp)

lemma for_of_not_None:
  assumes J: "J s"
    and step: "\<And>x t. x \<in> set xs \<Longrightarrow> J t \<Longrightarrow> body x t \<noteq> None \<and> (\<forall>t'. body x t = Some (Inr t') \<longrightarrow> J t')"
  shows "for_of body xs s \<noteq> None"
  using J step
proof (induction xs arbitrary: s)
  case (Cons x xs)
  show ?case
  proof
    assume "for_of body (x # xs) s = None"
    then consider "body x s = None" | t where "body x s = Some (Inr t)" "for_of body xs t = None"
      by (auto dest!: and_then_None)
    then show False
    proof cases
      case 1
      with Cons.prems(2)[of x s] Cons.prems(1) show False by simp
    next
      case 2
      with Cons.prems(2)[of x s] Cons.prems(1) have Jt: "J t" by simp
      have "for_of body xs t \<noteq> None"
        by (rule Cons.IH[OF Jt]) (rule Cons.prems(2), simp_all)
      with 2 show False by simp
    qed
  qed
qed simp

lemma keys_push_properties [simp]: "map fst (push_properties m v e) = map fst m"
  by (induction m v e rule: push_properties.induct) auto

lemma keys_push_setData [simp]: "map fst (push_setData m v e) = map fst m"
  by (induction m v e rule: push_setData.induct) auto

lemma keys_push_mapData [simp]: "map fst (push_mapData m v e) = map fst m"
  by (induction m v e rule: push_mapData.induct) auto

lemma keys_ok_cong: "map fst m = map fst m' \<Longrightarrow> keys_ok h m = keys_ok h m'"
  by (simp add: keys_ok_def)

lemma keys_pigeonhole:
  assumes ok: "keys_ok h mem" and a: "a < length h" and fresh: "VObj a \<notin> set (map fst mem)"
  shows "length mem < length h"
proof -
  let ?K = "map fst mem"
  have sub: "set ?K \<subseteq> VObj ` ({..<length h} - {a})"
  proof
    fix k assume k: "k \<in> set ?K"
    with ok obtain b where "k = VObj b" "b < length h" unfolding keys_ok_def by blast
    with k fresh show "k \<in> VObj ` ({..<length h} - {a})" by auto
  qed
  have "distinct ?K" using ok by (simp add: keys_ok_def)
  from distinct_card[OF this] have "length mem = card (set ?K)" by simp
  also have "\<dots> \<le> card (VObj ` ({..<length h} - {a}))" by (rule card_mono[OF _ sub]) simp
  also have "\<dots> \<le> card ({..<length h} - {a})" by (rule card_image_le) simp
  also have "\<dots> < length h" using a by (simp add: card_Diff_singleton_if)
  finally show ?thesis .
qed

lemma and_then_not_None:
  "m \<noteq> None \<Longrightarrow> (\<And>x. m = Some (Inr x) \<Longrightarrow> f x \<noteq> None) \<Longrightarrow> and_then m f \<noteq> None"
  by (cases m; simp) (rename_tac r, case_tac r; simp)

lemma and_then_pair_None [simp]:
  "(and_then m (\<lambda>(a, b). Some (g a b)) = None) = (m = None)"
  by (cases m; simp) (rename_tac r, case_tac r; simp split: prod.splits)

lemma and_then_Some_None [simp]:
  "(and_then m (\<lambda>x. Some (g x)) = None) = (m = None)"
  by (cases m; simp) (rename_tac r, case_tac r; simp)

lemma and_then_pair_Inr:
  "and_then m (\<lambda>(a, b). k a b) = Some (Inr y) \<Longrightarrow>
   \<exists>a b. m = Some (Inr (a, b)) \<and> k a b = Some (Inr y)"
  by (cases m; simp) (rename_tac r, case_tac r; simp split: prod.splits)

lemma wf_heap_child:
  "wf_heap h \<Longrightarrow> a < length h \<Longrightarrow> c \<in> set (children (h ! a)) \<Longrightarrow> in_heap h c"
  using nth_mem[of a h] by (auto simp: wf_heap_def)

lemma length_push_properties [simp]: "length (push_properties m v e) = length m"
  by (induction m v e rule: push_properties.induct) auto

lemma length_push_setData [simp]: "length (push_setData m v e) = length m"
  by (induction m v e rule: push_setData.induct) auto

lemma length_push_mapData [simp]: "length (push_mapData m v e) = length m"
  by (induction m v e rule: push_mapData.induct) auto

lemma enc_total:
  assumes wf: "wf_heap h"
  shows "keys_ok h mem \<Longrightarrow> in_heap h v \<Longrightarrow> length h - length mem + 2 \<le> n \<Longrightarrow>
         structuredSerializeInternal n h v mem \<noteq> None"
proof (induction n arbitrary: v mem)
  case 0
  then show ?case by simp
next
  case (Suc n)
  note ok = Suc.prems(1) and vh = Suc.prems(2) and fuel = Suc.prems(3)
  let ?f = "structuredSerializeInternal n h"
  note spec = enc_spec_Internal[OF wf, of n]
  show ?case
  proof (cases "memory_has mem v")
    case True
    then show ?thesis by (simp add: structuredSerializeInternal.simps)
  next
    case fresh: False
    show ?thesis
    proof (cases v)
      case (VObj a)
      with vh have a: "a < length h" by simp
      from fresh VObj have fr: "VObj a \<notin> set (map fst mem)" by (simp add: memory_has_def)
      from keys_pigeonhole[OF ok a fr] have lt: "length mem < length h" .
      with fuel have n2: "length h - length mem + 1 \<le> n" by simp
      let ?J = "\<lambda>t. keys_ok h t \<and> length mem < length t"
      have F: "?f c t \<noteq> None" if "in_heap h c" "?J t" for c t
        using that n2 lt by (intro Suc.IH) auto
      have G: "?J t1" if "?J t" "?f c t = Some (Inr (out, t1))" for c t out t1
        using enc_specD[OF spec _ that(2)] that(1) by auto
      have J0: "?J (memory_set mem (VObj a) r)" for r
        using ok fr a by (auto simp: memory_set_absent keys_ok_def)
      have kid: "in_heap h c" if "c \<in> set (children (h ! a))" for c
        using wf_heap_child[OF wf a that] .
      have Jpush: "?J (push_properties t v' e)" "?J (push_setData t v' e2)"
        "?J (push_mapData t v' e3)" if "?J t" for t v' e e2 e3
        using that keys_ok_cong[of "push_properties t v' e" t h]
          keys_ok_cong[of "push_setData t v' e2" t h] keys_ok_cong[of "push_mapData t v' e3" t h]
        by simp_all
      have props: "for_of (\<lambda>(k, c) m. and_then (?f c m)
                     (\<lambda>(out, m1). Some (Inr (push_properties m1 (VObj a) (k, out))))) xs
                     (memory_set mem (VObj a) r) \<noteq> None"
        if "\<forall>c \<in> snd ` set xs. in_heap h c" for xs r
      proof (rule for_of_not_None[where J = ?J, OF J0])
        fix x t assume x: "x \<in> set xs" and J: "?J t"
        obtain k c where xc: "x = (k, c)" by (cases x)
        with x that have "in_heap h c" by force
        from F[OF this J] G[OF J, of c] Jpush(1)
        show "(case x of (k, c) \<Rightarrow> \<lambda>m. and_then (?f c m)
                 (\<lambda>(out, m1). Some (Inr (push_properties m1 (VObj a) (k, out))))) t \<noteq> None \<and>
              (\<forall>t'. (case x of (k, c) \<Rightarrow> \<lambda>m. and_then (?f c m)
                 (\<lambda>(out, m1). Some (Inr (push_properties m1 (VObj a) (k, out))))) t = Some (Inr t')
                 \<longrightarrow> ?J t')"
          unfolding xc by (auto dest!: and_then_pair_Inr)
      qed
      show ?thesis
      proof (cases "h ! a")
        case (ViewObj name buffer off len)
        from wf a ViewObj obtain bytes where b: "buffer < length h" "h ! buffer = ArrayBufferObj bytes"
          by (cases "h ! buffer") (auto simp: wf_heap_def dest!: nth_mem)
        from n2 obtain k where k: "n = Suc k" by (cases n) auto
        have "?f (VObj buffer) mem \<noteq> None"
          unfolding k using b by (simp add: structuredSerializeInternal.simps Let_def)
        then show ?thesis using fresh VObj a ViewObj
          by (simp add: structuredSerializeInternal.simps Let_def)
      next
        case (PlainObj ps)
        have "\<forall>c \<in> snd ` set ps. in_heap h c" using kid PlainObj by auto
        from props[OF this] show ?thesis using fresh VObj a PlainObj
          by (simp add: structuredSerializeInternal.simps Let_def)
      next
        case (ArrayObj len ps)
        have "\<forall>c \<in> snd ` set (ps @ [(''length'', VNumber (Finite (int len)))]). in_heap h c"
          using kid ArrayObj by auto
        from props[OF this] show ?thesis using fresh VObj a ArrayObj
          by (simp add: structuredSerializeInternal.simps Let_def)
      next
        case (SetObj es)
        have "for_of (\<lambda>c m. and_then (?f c m)
                     (\<lambda>(out, m1). Some (Inr (push_setData m1 (VObj a) out)))) es
                     (memory_set mem (VObj a) (SetS [])) \<noteq> None"
        proof (rule for_of_not_None[where J = ?J, OF J0])
          fix x t assume x: "x \<in> set es" and J: "?J t"
          with kid SetObj have "in_heap h x" by simp
          from F[OF this J] G[OF J, of x] Jpush(2)
          show "and_then (?f x t) (\<lambda>(out, m1). Some (Inr (push_setData m1 (VObj a) out))) \<noteq> None \<and>
              (\<forall>t'. and_then (?f x t) (\<lambda>(out, m1). Some (Inr (push_setData m1 (VObj a) out)))
                 = Some (Inr t') \<longrightarrow> ?J t')"
            by (auto dest!: and_then_pair_Inr)
        qed
        then show ?thesis using fresh VObj a SetObj
          by (simp add: structuredSerializeInternal.simps Let_def)
      next
        case (MapObj es)
        have "for_of (\<lambda>(key, val) m. and_then (?f key m) (\<lambda>(sk, m1).
                     and_then (?f val m1)
                       (\<lambda>(sv, m2). Some (Inr (push_mapData m2 (VObj a) (sk, sv)))))) es
                     (memory_set mem (VObj a) (MapS [])) \<noteq> None"
        proof (rule for_of_not_None[where J = ?J, OF J0])
          fix x t assume x: "x \<in> set es" and J: "?J t"
          obtain k c where xc: "x = (k, c)" by (cases x)
          with x kid MapObj have kc: "in_heap h k" "in_heap h c" by force+
          have A: "?f k t \<noteq> None" by (rule F[OF kc(1) J])
          have B: "?f c t1 \<noteq> None \<and> (\<forall>sv t2. ?f c t1 = Some (Inr (sv, t2)) \<longrightarrow> ?J t2)"
            if "?f k t = Some (Inr (sk, t1))" for sk t1
            using G[OF J that] F[OF kc(2), of t1] G[of t1 c] by blast
          show "(case x of (key, val) \<Rightarrow> \<lambda>m. and_then (?f key m) (\<lambda>(sk, m1).
                     and_then (?f val m1)
                       (\<lambda>(sv, m2). Some (Inr (push_mapData m2 (VObj a) (sk, sv)))))) t \<noteq> None \<and>
              (\<forall>t'. (case x of (key, val) \<Rightarrow> \<lambda>m. and_then (?f key m) (\<lambda>(sk, m1).
                     and_then (?f val m1)
                       (\<lambda>(sv, m2). Some (Inr (push_mapData m2 (VObj a) (sk, sv)))))) t = Some (Inr t')
                 \<longrightarrow> ?J t')"
            unfolding xc prod.case
          proof (rule conjI, goal_cases)
            case 1
            show "and_then (?f k t) (\<lambda>(sk, m1). and_then (?f c m1)
                    (\<lambda>(sv, m2). Some (Inr (push_mapData m2 (VObj a) (sk, sv))))) \<noteq> None"
            proof (rule and_then_not_None[OF A])
              fix y assume y: "?f k t = Some (Inr y)"
              obtain sk t1 where "y = (sk, t1)" by (cases y)
              with B[of sk t1] y
              show "(case y of (sk, m1) \<Rightarrow> and_then (?f c m1)
                    (\<lambda>(sv, m2). Some (Inr (push_mapData m2 (VObj a) (sk, sv))))) \<noteq> None"
                by simp
            qed
          next
            case 2
            show ?case
            proof (intro allI impI)
            fix t'
            assume "and_then (?f k t) (\<lambda>(sk, m1). and_then (?f c m1)
                    (\<lambda>(sv, m2). Some (Inr (push_mapData m2 (VObj a) (sk, sv))))) = Some (Inr t')"
            from and_then_pair_Inr[OF this] obtain sk t1 where
              r1: "?f k t = Some (Inr (sk, t1))"
              and "and_then (?f c t1) (\<lambda>(sv, m2). Some (Inr (push_mapData m2 (VObj a) (sk, sv))))
                   = Some (Inr t')" by blast
            from and_then_pair_Inr[OF this(2)] obtain sv t2 where
              r2: "?f c t1 = Some (Inr (sv, t2))" and t': "t' = push_mapData t2 (VObj a) (sk, sv)"
              by auto
            from B[OF r1] r2 have "?J t2" by blast
            from Jpush(3)[OF this] show "?J t'" unfolding t' .
            qed
          qed
        qed
        then show ?thesis using fresh VObj a MapObj
          by (simp add: structuredSerializeInternal.simps Let_def)
      qed (use fresh VObj a in \<open>auto simp: structuredSerializeInternal.simps Let_def split: option.splits\<close>)
    qed (use fresh in \<open>auto simp: structuredSerializeInternal.simps\<close>)
  qed
qed

section \<open>Errors of the encoder\<close>

lemma and_then_Inl:
  "and_then m f = Some (Inl e) \<Longrightarrow> m = Some (Inl e) \<or> (\<exists>x. m = Some (Inr x) \<and> f x = Some (Inl e))"
  by (cases m; simp) (rename_tac r, case_tac r; simp)

lemma for_of_Inl:
  "for_of body xs s = Some (Inl e) \<Longrightarrow> \<exists>x \<in> set xs. \<exists>t. body x t = Some (Inl e)"
proof (induction xs arbitrary: s)
  case (Cons x xs)
  from and_then_Inl[OF Cons.prems[simplified]] Cons.IH show ?case by auto
qed simp

lemma reachable_trans:
  "reachable h c w \<Longrightarrow> reachable h v c \<Longrightarrow> reachable h v w"
  by (induction rule: reachable.induct) (auto intro: reachable.intros)

lemma reachable_primitive: "reachable h c w \<Longrightarrow> is_primitive c \<Longrightarrow> w = c"
  by (induction rule: reachable.induct) auto

lemma reachable_closed:
  assumes comp: "\<forall>e \<in> set mem. entry_complete h (map fst mem) e"
    and root: "child_ok (map fst mem) v"
    and r: "reachable h v w"
  shows "child_ok (map fst mem) w \<and> \<not> unsupported_value h w"
  using r
proof (induction rule: reachable.induct)
  case reachable_root
  show ?case
  proof (cases v)
    case (VObj a)
    with root obtain e where "e \<in> set mem" "fst e = VObj a" by (auto simp: child_ok_def)
    with comp have "supported (h ! a)" by (auto simp: entry_complete_def)
    with VObj root show ?thesis by (cases "h ! a") auto
  qed (use root in \<open>auto simp: child_ok_def\<close>)
next
  case (reachable_child a c)
  then obtain e where e: "e \<in> set mem" "fst e = VObj a" by (auto simp: child_ok_def)
  with comp reachable_child.hyps(3) have c: "child_ok (map fst mem) c"
    by (auto simp: entry_complete_def)
  show ?case
  proof (cases c)
    case (VObj b)
    with c obtain e' where "e' \<in> set mem" "fst e' = VObj b" by (auto simp: child_ok_def)
    with comp have "supported (h ! b)" by (auto simp: entry_complete_def)
    with VObj c show ?thesis by (cases "h ! b") auto
  qed (use c in \<open>auto simp: child_ok_def\<close>)
qed

lemma enc_error_ok_child:
  assumes "enc_error_ok h c e" "a < length h" "c \<in> set (children (h ! a))"
  shows "enc_error_ok h (VObj a) e"
proof -
  have "reachable h (VObj a) c" using assms(2,3) by (auto intro: reachable.intros)
  with assms(1) show ?thesis unfolding enc_error_ok_def by (blast intro: reachable_trans)
qed

lemma enc_error_ok_primitive: "enc_error_ok h c e \<Longrightarrow> is_primitive c \<Longrightarrow> is_TypeError e"
  unfolding enc_error_ok_def by (auto dest: reachable_primitive)

lemma enc_errors:
  assumes wf: "wf_heap h"
  shows "in_heap h v \<Longrightarrow> structuredSerializeInternal n h v mem = Some (Inl e) \<Longrightarrow>
         enc_error_ok h v e"
proof (induction n arbitrary: v mem e)
  case 0
  then show ?case by (simp add: structuredSerializeInternal.simps)
next
  case (Suc n)
  note vh = Suc.prems(1) and run = Suc.prems(2)
  let ?f = "structuredSerializeInternal n h"
  show ?case
  proof (cases "memory_has mem v")
    case True
    with run show ?thesis by (simp add: structuredSerializeInternal.simps)
  next
    case fresh: False
    show ?thesis
    proof (cases v)
      case (VObj a)
      with vh have a: "a < length h" by simp
      have kid: "in_heap h c" if "c \<in> set (children (h ! a))" for c
        using wf_heap_child[OF wf a that] .
      have up: "enc_error_ok h v e'" if "c \<in> set (children (h ! a))" "?f c t = Some (Inl e')" for c t e'
        unfolding VObj using Suc.IH[OF kid[OF that(1)] that(2)] a that(1) by (rule enc_error_ok_child)
      note unf = structuredSerializeInternal.simps Let_def
      show ?thesis
      proof (cases "h ! a")
        case (ViewObj name buffer off len)
        with run fresh VObj a have "?f (VObj buffer) mem = Some (Inl e)"
          by (auto simp: unf dest!: and_then_Inl)
        from up[OF _ this] ViewObj show ?thesis by simp
      next
        case (PlainObj ps)
        with run fresh VObj a obtain k c t where "(k, c) \<in> set ps" "?f c t = Some (Inl e)"
          by (fastforce simp: unf dest!: and_then_Inl for_of_Inl)
        with up[of c t e] PlainObj show ?thesis by force
      next
        case (ArrayObj len ps)
        with run fresh VObj a obtain k c t where
          kc: "(k, c) \<in> set ps \<or> c = VNumber (Finite (int len))" and r: "?f c t = Some (Inl e)"
          by (fastforce simp: unf dest!: and_then_Inl for_of_Inl)
        from kc show ?thesis
        proof
          assume "(k, c) \<in> set ps"
          with up[of c t e] r ArrayObj show ?thesis by force
        next
          assume c: "c = VNumber (Finite (int len))"
          with r show ?thesis by (cases n) (auto simp: unf memory_has_def split: if_splits)
        qed
      next
        case (SetObj es)
        with run fresh VObj a obtain c t where "c \<in> set es" "?f c t = Some (Inl e)"
          by (fastforce simp: unf dest!: and_then_Inl for_of_Inl)
        with up[of c t e] SetObj show ?thesis by force
      next
        case (MapObj es)
        with run fresh VObj a obtain k c t where "(k, c) \<in> set es"
          "?f k t = Some (Inl e) \<or> ?f c t = Some (Inl e)"
          by (fastforce simp: unf dest!: and_then_Inl for_of_Inl)
        with up[of k t e] up[of c t e] MapObj show ?thesis by force
      next
        case (DateObj d)
        with run fresh VObj a have "d = None" "e = RangeError ''Invalid time value''"
          by (auto simp: unf split: option.splits)
        with DateObj a VObj show ?thesis
          unfolding enc_error_ok_def by (auto intro: reachable.intros)
      qed (use run fresh VObj a in \<open>auto simp: unf enc_error_ok_def\<close>)
    qed (use run fresh in \<open>auto simp: structuredSerializeInternal.simps enc_error_ok_def\<close>)
  qed
qed

lemma structuredSerialize_returns:
  assumes wf: "wf_heap h" and vh: "in_heap h v"
  shows "structuredSerializeInternal (length h + 2) h v [] \<noteq> None"
  by (rule enc_total[OF wf _ vh]) (simp_all add: keys_ok_def)

section \<open>The decoder registers what it comes to\<close>

lemma complete_id_mono: "complete_id objects D i \<Longrightarrow> D \<subseteq> D' \<Longrightarrow> complete_id objects D' i"
  unfolding complete_id_def by blast

lemma dec_loop:
  assumes body: "\<And>x s s''. x \<in> set xs \<Longrightarrow> body x s = Some (Inr s'') \<Longrightarrow>
        dom (fst s) \<subseteq> dom (fst s'') \<and> (\<forall>j. Reference j \<in> set (kids x) \<longrightarrow> j \<in> dom (fst s'')) \<and>
        (\<forall>i \<in> dom (fst s'') - dom (fst s). complete_id objects (dom (fst s'')) i)"
    and run: "for_of body xs (s0 :: decode_state) = Some (Inr s')"
  shows "dom (fst s0) \<subseteq> dom (fst s') \<and>
         (\<forall>x \<in> set xs. \<forall>j. Reference j \<in> set (kids x) \<longrightarrow> j \<in> dom (fst s')) \<and>
         (\<forall>i \<in> dom (fst s') - dom (fst s0). complete_id objects (dom (fst s')) i)"
proof -
  define I where "I = (\<lambda>pre (s :: decode_state). dom (fst s0) \<subseteq> dom (fst s) \<and>
         (\<forall>x \<in> set pre. \<forall>j. Reference j \<in> set (kids x) \<longrightarrow> j \<in> dom (fst s)) \<and>
         (\<forall>i \<in> dom (fst s) - dom (fst s0). complete_id objects (dom (fst s)) i))"
  have init: "I [] s0" by (simp add: I_def)
  have step: "I (pre @ [x]) t'" if x: "x \<in> set xs" and I: "I pre t" and b: "body x t = Some (Inr t')"
    for x pre t t'
  proof -
    from body[OF x b] have 1: "dom (fst t) \<subseteq> dom (fst t')"
      and 2: "\<forall>j. Reference j \<in> set (kids x) \<longrightarrow> j \<in> dom (fst t')"
      and 3: "\<forall>i \<in> dom (fst t') - dom (fst t). complete_id objects (dom (fst t')) i" by auto
    from I have 4: "dom (fst s0) \<subseteq> dom (fst t)"
      and 5: "\<forall>x \<in> set pre. \<forall>j. Reference j \<in> set (kids x) \<longrightarrow> j \<in> dom (fst t)"
      and 6: "\<forall>i \<in> dom (fst t) - dom (fst s0). complete_id objects (dom (fst t)) i"
      unfolding I_def by auto
    have "\<forall>i \<in> dom (fst t') - dom (fst s0). complete_id objects (dom (fst t')) i"
    proof
      fix i assume i: "i \<in> dom (fst t') - dom (fst s0)"
      show "complete_id objects (dom (fst t')) i"
      proof (cases "i \<in> dom (fst t)")
        case True
        with i 6 have "complete_id objects (dom (fst t)) i" by blast
        then show ?thesis using 1 by (rule complete_id_mono)
      next
        case False
        with i 3 show ?thesis by blast
      qed
    qed
    moreover have "dom (fst s0) \<subseteq> dom (fst t')" using 1 4 by blast
    moreover have "\<forall>y \<in> set pre \<union> {x}. \<forall>j. Reference j \<in> set (kids y) \<longrightarrow> j \<in> dom (fst t')"
      using 1 2 5 by blast
    ultimately show ?thesis unfolding I_def by (simp only: set_append list.set Un_insert_right Un_empty_right)
  qed
  from for_of_invariant[where I = I and seen = "[]", OF run init step]
  show ?thesis by (simp add: I_def)
qed

lemma dec_specD:
  "dec_spec objects f \<Longrightarrow> f node st = Some (Inr (v, st')) \<Longrightarrow>
   dom (fst st) \<subseteq> dom (fst st') \<and> (\<forall>i. node = Reference i \<longrightarrow> i \<in> dom (fst st')) \<and>
   (\<forall>i \<in> dom (fst st') - dom (fst st). complete_id objects (dom (fst st')) i)"
  unfolding dec_spec_def dec_post_def by blast

lemma dec_body_one:
  assumes spec: "dec_spec objects f"
    and run: "and_then (f node s) (\<lambda>(dv, s1). k dv s1) = Some (Inr s'')"
    and k: "\<And>dv s1. k dv s1 = Some (Inr s'') \<Longrightarrow> fst s'' = fst s1"
  shows "dom (fst s) \<subseteq> dom (fst s'') \<and> (\<forall>j. Reference j \<in> set [node] \<longrightarrow> j \<in> dom (fst s'')) \<and>
        (\<forall>i \<in> dom (fst s'') - dom (fst s). complete_id objects (dom (fst s'')) i)"
proof -
  from and_then_pair_Inr[OF run] obtain dv s1 where r: "f node s = Some (Inr (dv, s1))"
    and kk: "k dv s1 = Some (Inr s'')" by blast
  from k[OF kk] dec_specD[OF spec r] show ?thesis by simp
qed

lemma dec_body_two:
  assumes spec: "dec_spec objects f"
    and run: "and_then (f n1 s) (\<lambda>(dk, s1). and_then (f n2 s1) (\<lambda>(dv, s2). k dk dv s2))
              = Some (Inr s'')"
    and k: "\<And>dk dv s2. k dk dv s2 = Some (Inr s'') \<Longrightarrow> fst s'' = fst s2"
  shows "dom (fst s) \<subseteq> dom (fst s'') \<and> (\<forall>j. Reference j \<in> set [n1, n2] \<longrightarrow> j \<in> dom (fst s'')) \<and>
        (\<forall>i \<in> dom (fst s'') - dom (fst s). complete_id objects (dom (fst s'')) i)"
proof -
  from and_then_pair_Inr[OF run] obtain dk s1 where r1: "f n1 s = Some (Inr (dk, s1))"
    and run2: "and_then (f n2 s1) (\<lambda>(dv, s2). k dk dv s2) = Some (Inr s'')" by blast
  from and_then_pair_Inr[OF run2] obtain dv s2 where r2: "f n2 s1 = Some (Inr (dv, s2))"
    and kk: "k dk dv s2 = Some (Inr s'')" by blast
  note e = k[OF kk]
  from dec_specD[OF spec r1] have a: "dom (fst s) \<subseteq> dom (fst s1)"
    "\<forall>i. n1 = Reference i \<longrightarrow> i \<in> dom (fst s1)"
    "\<forall>i \<in> dom (fst s1) - dom (fst s). complete_id objects (dom (fst s1)) i" by auto
  from dec_specD[OF spec r2] have b: "dom (fst s1) \<subseteq> dom (fst s2)"
    "\<forall>i. n2 = Reference i \<longrightarrow> i \<in> dom (fst s2)"
    "\<forall>i \<in> dom (fst s2) - dom (fst s1). complete_id objects (dom (fst s2)) i" by auto
  have "\<forall>i \<in> dom (fst s2) - dom (fst s). complete_id objects (dom (fst s2)) i"
  proof
    fix i assume i: "i \<in> dom (fst s2) - dom (fst s)"
    show "complete_id objects (dom (fst s2)) i"
    proof (cases "i \<in> dom (fst s1)")
      case True
      with i a(3) have "complete_id objects (dom (fst s1)) i" by blast
      then show ?thesis using b(1) by (rule complete_id_mono)
    next
      case False
      with i b(3) show ?thesis by blast
    qed
  qed
  moreover have "dom (fst s) \<subseteq> dom (fst s2)" using a(1) b(1) by blast
  moreover have "\<forall>j. Reference j \<in> set [n1, n2] \<longrightarrow> j \<in> dom (fst s2)"
    using a(2) b(1,2) by auto
  ultimately show ?thesis unfolding e by blast
qed

lemma dec_deep:
  assumes body: "\<And>x s s''. x \<in> set xs \<Longrightarrow> body x s = Some (Inr s'') \<Longrightarrow>
        dom (fst s) \<subseteq> dom (fst s'') \<and> (\<forall>j. Reference j \<in> set (kids x) \<longrightarrow> j \<in> dom (fst s'')) \<and>
        (\<forall>i \<in> dom (fst s'') - dom (fst s). complete_id objects (dom (fst s'')) i)"
    and run: "and_then (for_of body xs ((mem(i \<mapsto> w), hp) :: decode_state))
                (\<lambda>st'. return (w, st')) = Some (Inr (v, st'))"
    and rng: "0 \<le> i" "i < int (length objects)" and rok: "record_ok (objects ! nat i)"
    and cover: "\<And>j. Reference j \<in> set (child_nodes (objects ! nat i)) \<Longrightarrow>
                  \<exists>x \<in> set xs. Reference j \<in> set (kids x)"
  shows "dec_post objects (Reference i) (dom mem) (dom (fst st'))"
proof -
  from and_then_Inr[OF run] have loop: "for_of body xs (mem(i \<mapsto> w), hp) = Some (Inr st')"
    by (auto simp: return_def)
  from dec_loop[where kids = kids and objects = objects, OF body loop]
  have 1: "dom (fst (mem(i \<mapsto> w), hp)) \<subseteq> dom (fst st')"
    and 2: "\<forall>x \<in> set xs. \<forall>j. Reference j \<in> set (kids x) \<longrightarrow> j \<in> dom (fst st')"
    and 3: "\<forall>k \<in> dom (fst st') - dom (fst (mem(i \<mapsto> w), hp)). complete_id objects (dom (fst st')) k"
    by blast+
  have i: "i \<in> dom (fst st')" using 1 by auto
  have ci: "complete_id objects (dom (fst st')) i"
    unfolding complete_id_def using rng rok cover 2 by blast
  have "\<forall>k \<in> dom (fst st') - dom mem. complete_id objects (dom (fst st')) k"
  proof
    fix k assume k: "k \<in> dom (fst st') - dom mem"
    show "complete_id objects (dom (fst st')) k"
    proof (cases "k = i")
      case True with ci show ?thesis by simp
    next
      case False
      with k have "k \<in> dom (fst st') - dom (fst (mem(i \<mapsto> w), hp))" by auto
      with 3 show ?thesis by blast
    qed
  qed
  moreover have "dom mem \<subseteq> dom (fst st')" using 1 by auto
  ultimately show ?thesis unfolding dec_post_def using i by blast
qed

lemma dec_spec_Internal: "dec_spec objects (structuredDeserializeInternal n objects)"
proof (induction n)
  case 0
  show ?case by (simp add: dec_spec_def structuredDeserializeInternal.simps)
next
  case (Suc n)
  let ?f = "structuredDeserializeInternal n objects"
  note unf = structuredDeserializeInternal.simps Let_def return_def throw_def
  show ?case unfolding dec_spec_def
  proof (intro allI impI)
    fix node st v st'
    assume run: "structuredDeserializeInternal (Suc n) objects node st = Some (Inr (v, st'))"
    obtain mem hp where st: "st = (mem, hp)" by (cases st)
    show "dec_post objects node (dom (fst st)) (dom (fst st'))"
    proof (cases node)
      case (Primitive t x)
      with run have "st' = st" by (auto simp: unf split: sum.splits)
      with Primitive show ?thesis by (simp add: dec_post_def)
    next
      case (Reference i)
      show ?thesis
      proof (cases "mem i")
        case (Some w)
        with run Reference st have "st' = st" by (simp add: unf)
        with Some Reference st show ?thesis by (auto simp: dec_post_def)
      next
        case None
        with run Reference st have rng: "0 \<le> i" "i < int (length objects)"
          by (auto simp: unf split: if_splits)
        have leaf: "dec_post objects (Reference i) (dom mem) (insert i (dom mem))"
          if "child_nodes (objects ! nat i) = []" "record_ok (objects ! nat i)"
          unfolding dec_post_def complete_id_def using that rng by auto
        show ?thesis
        proof (cases "objects ! nat i")
          case (ArrayBufferViewS name off len buf)
          with run Reference st None rng obtain es where es: "typedArrayConstructor name = Inr es"
            by (auto simp: unf split: sum.splits)
          with run Reference st None rng ArrayBufferViewS obtain ab st1 typedArray where
            r1: "?f buf st = Some (Inr (ab, st1))"
            and st': "st' = ((fst st1)(i \<mapsto> VObj (length (snd st1))), snd st1 @ [typedArray])"
            by (auto simp: unf split: sum.splits dest!: and_then_pair_Inr)
          from dec_specD[OF Suc.IH r1] have a: "dom (fst st) \<subseteq> dom (fst st1)"
            "\<forall>j. buf = Reference j \<longrightarrow> j \<in> dom (fst st1)"
            "\<forall>k \<in> dom (fst st1) - dom (fst st). complete_id objects (dom (fst st1)) k" by auto
          have D': "dom (fst st') = insert i (dom (fst st1))" using st' by auto
          have ci: "complete_id objects (dom (fst st')) i"
            unfolding complete_id_def D' using rng ArrayBufferViewS es a(2) by auto
          have "\<forall>k \<in> dom (fst st') - dom (fst st). complete_id objects (dom (fst st')) k"
          proof
            fix k assume k: "k \<in> dom (fst st') - dom (fst st)"
            show "complete_id objects (dom (fst st')) k"
            proof (cases "k = i")
              case True with ci show ?thesis by simp
            next
              case False
              with k D' a(3) have "complete_id objects (dom (fst st1)) k" by blast
              then show ?thesis unfolding D' by (rule complete_id_mono) blast
            qed
          qed
          with a(1) D' show ?thesis unfolding dec_post_def Reference by blast
        next
          case (MapS mapData)
          have "dec_post objects (Reference i) (dom mem) (dom (fst st'))"
          proof (rule dec_deep[where kids = "\<lambda>(k, v). [k, v]" and xs = mapData])
            show "and_then (for_of (\<lambda>(serializedKey, serializedValue) s.
                     and_then (?f serializedKey s) (\<lambda>(deserializedKey, s1).
                       and_then (?f serializedValue s1) (\<lambda>(deserializedValue, s2).
                          return (fst s2, map_set (snd s2) (length hp) deserializedKey
                            deserializedValue)))) mapData
                     (mem(i \<mapsto> VObj (length hp)), hp @ [MapObj []]))
                   (\<lambda>st'. return (VObj (length hp), st')) = Some (Inr (v, st'))"
              using run Reference st None rng MapS by (simp add: unf)
          next
            fix x s s''
            assume "(case x of (serializedKey, serializedValue) \<Rightarrow> \<lambda>s.
                     and_then (?f serializedKey s) (\<lambda>(deserializedKey, s1).
                       and_then (?f serializedValue s1) (\<lambda>(deserializedValue, s2).
                          return (fst s2, map_set (snd s2) (length hp) deserializedKey
                            deserializedValue)))) s = Some (Inr s'')"
            then show "dom (fst s) \<subseteq> dom (fst s'') \<and>
                (\<forall>j. Reference j \<in> set (case x of (k, v) \<Rightarrow> [k, v]) \<longrightarrow> j \<in> dom (fst s'')) \<and>
                (\<forall>i \<in> dom (fst s'') - dom (fst s). complete_id objects (dom (fst s'')) i)"
              by (cases x, simp only: prod.case)
                (rule dec_body_two[OF Suc.IH, where k = "\<lambda>dk dv s2.
                   return (fst s2, map_set (snd s2) (length hp) dk dv)"],
                 auto simp: return_def)
          qed (use rng MapS in \<open>auto\<close>)
          then show ?thesis unfolding Reference st by simp
        next
          case (SetS setData)
          have "dec_post objects (Reference i) (dom mem) (dom (fst st'))"
          proof (rule dec_deep[where kids = "\<lambda>k. [k]" and xs = setData])
            show "and_then (for_of (\<lambda>serializedValue s.
                     and_then (?f serializedValue s) (\<lambda>(deserializedValue, s1).
                          return (fst s1, set_add (snd s1) (length hp) deserializedValue))) setData
                     (mem(i \<mapsto> VObj (length hp)), hp @ [SetObj []]))
                   (\<lambda>st'. return (VObj (length hp), st')) = Some (Inr (v, st'))"
              using run Reference st None rng SetS by (simp add: unf)
          next
            fix x s s''
            assume "and_then (?f x s) (\<lambda>(deserializedValue, s1).
                          return (fst s1, set_add (snd s1) (length hp) deserializedValue))
                    = Some (Inr s'')"
            then show "dom (fst s) \<subseteq> dom (fst s'') \<and>
                (\<forall>j. Reference j \<in> set [x] \<longrightarrow> j \<in> dom (fst s'')) \<and>
                (\<forall>i \<in> dom (fst s'') - dom (fst s). complete_id objects (dom (fst s'')) i)"
              by (rule dec_body_one[OF Suc.IH, where k = "\<lambda>dv s1.
                   return (fst s1, set_add (snd s1) (length hp) dv)"])
                 (auto simp: return_def)
          qed (use rng SetS in \<open>auto\<close>)
          then show ?thesis unfolding Reference st by simp
        next
          case (ArrayS len properties)
          with run Reference st None rng have lenok: "\<not> (len < 0 \<or> 4294967296 \<le> len)"
            by (auto simp: unf split: if_splits)
          have "dec_post objects (Reference i) (dom mem) (dom (fst st'))"
          proof (rule dec_deep[where kids = "\<lambda>(k, v). [v]" and xs = properties])
            show "and_then (for_of (\<lambda>(key, serializedValue) s.
                     and_then (?f serializedValue s) (\<lambda>(deserializedValue, s1).
                        case reflect_set (snd s1) (length hp) key deserializedValue of
                          Inl e \<Rightarrow> throw e | Inr heap' \<Rightarrow> return (fst s1, heap'))) properties
                     (mem(i \<mapsto> VObj (length hp)), hp @ [ArrayObj (nat len) []]))
                   (\<lambda>st'. return (VObj (length hp), st')) = Some (Inr (v, st'))"
              using run Reference st None rng ArrayS lenok by (simp add: unf)
          next
            fix x s s''
            assume b: "(case x of (key, serializedValue) \<Rightarrow> \<lambda>s.
                     and_then (?f serializedValue s) (\<lambda>(deserializedValue, s1).
                        case reflect_set (snd s1) (length hp) key deserializedValue of
                          Inl e \<Rightarrow> throw e | Inr heap' \<Rightarrow> return (fst s1, heap'))) s
                    = Some (Inr s'')"
            show "dom (fst s) \<subseteq> dom (fst s'') \<and>
                (\<forall>j. Reference j \<in> set (case x of (k, v) \<Rightarrow> [v]) \<longrightarrow> j \<in> dom (fst s'')) \<and>
                (\<forall>i \<in> dom (fst s'') - dom (fst s). complete_id objects (dom (fst s'')) i)"
            proof (cases x)
              case (Pair key sv)
              then show ?thesis using b
                by (simp only: prod.case)
                  (rule dec_body_one[OF Suc.IH, where k = "\<lambda>dv s1.
                     case reflect_set (snd s1) (length hp) key dv of
                       Inl e \<Rightarrow> throw e | Inr heap' \<Rightarrow> return (fst s1, heap')"],
                   auto simp: return_def throw_def split: sum.splits)
            qed
          qed (use rng ArrayS in \<open>auto\<close>)
          then show ?thesis unfolding Reference st by simp
        next
          case (ObjectS properties)
          have "dec_post objects (Reference i) (dom mem) (dom (fst st'))"
          proof (rule dec_deep[where kids = "\<lambda>(k, v). [v]" and xs = properties])
            show "and_then (for_of (\<lambda>(key, serializedValue) s.
                     and_then (?f serializedValue s) (\<lambda>(deserializedValue, s1).
                        case reflect_set (snd s1) (length hp) key deserializedValue of
                          Inl e \<Rightarrow> throw e | Inr heap' \<Rightarrow> return (fst s1, heap'))) properties
                     (mem(i \<mapsto> VObj (length hp)), hp @ [PlainObj []]))
                   (\<lambda>st'. return (VObj (length hp), st')) = Some (Inr (v, st'))"
              using run Reference st None rng ObjectS by (simp add: unf)
          next
            fix x s s''
            assume b: "(case x of (key, serializedValue) \<Rightarrow> \<lambda>s.
                     and_then (?f serializedValue s) (\<lambda>(deserializedValue, s1).
                        case reflect_set (snd s1) (length hp) key deserializedValue of
                          Inl e \<Rightarrow> throw e | Inr heap' \<Rightarrow> return (fst s1, heap'))) s
                    = Some (Inr s'')"
            show "dom (fst s) \<subseteq> dom (fst s'') \<and>
                (\<forall>j. Reference j \<in> set (case x of (k, v) \<Rightarrow> [v]) \<longrightarrow> j \<in> dom (fst s'')) \<and>
                (\<forall>i \<in> dom (fst s'') - dom (fst s). complete_id objects (dom (fst s'')) i)"
            proof (cases x)
              case (Pair key sv)
              then show ?thesis using b
                by (simp only: prod.case)
                  (rule dec_body_one[OF Suc.IH, where k = "\<lambda>dv s1.
                     case reflect_set (snd s1) (length hp) key dv of
                       Inl e \<Rightarrow> throw e | Inr heap' \<Rightarrow> return (fst s1, heap')"],
                   auto simp: return_def throw_def split: sum.splits)
            qed
          qed (use rng ObjectS in \<open>auto\<close>)
          then show ?thesis unfolding Reference st by simp
        qed (use run Reference st None rng in
              \<open>auto simp: unf split: sum.splits intro!: leaf\<close>)
      qed
    qed
  qed
qed

lemma decode_run:
  assumes "structuredDeserializeInternal n objects topLevelValue (Map.empty, []) = Some (Inr (v, st'))"
  shows "(\<forall>i. topLevelValue = Reference i \<longrightarrow> i \<in> dom (fst st')) \<and>
         (\<forall>i \<in> dom (fst st'). complete_id objects (dom (fst st')) i)"
  using dec_specD[OF dec_spec_Internal assms] by simp

lemma reached_registered:
  assumes topLevelValue: "\<forall>i. topLevelValue = Reference i \<longrightarrow> i \<in> D" and comp: "\<forall>i \<in> D. complete_id objects D i"
    and r: "reached objects topLevelValue i"
  shows "i \<in> D"
  using r
proof (induction rule: reached.induct)
  case (reached_top i)
  with topLevelValue show ?case by simp
next
  case (reached_child i j)
  with comp show ?case unfolding complete_id_def by blast
qed

lemma unknown_view_kind: "name \<notin> set view_case_labels \<Longrightarrow> typedArrayConstructor name = Inl (Error ''Unknown typed array name'')"
  by (simp add: view_case_labels_def typedArrayConstructor_def)

section \<open>Text of numbers and bytes\<close>

lemma digit_val_digit_char: "d < 10 \<Longrightarrow> digit_val (digit_char d) = Some d"
proof -
  assume "d < 10"
  then consider "d = 0" | "d = 1" | "d = 2" | "d = 3" | "d = 4" | "d = 5" | "d = 6" | "d = 7"
    | "d = 8" | "d = 9" by (auto simp: less_Suc_eq eval_nat_numeral)
  then show ?thesis by cases (simp_all add: digit_val_def digit_char_def)
qed

lemma digit_char_in: "d < 10 \<Longrightarrow> digit_char d \<in> set ''0123456789''"
  unfolding digit_char_def by (rule nth_mem) simp

lemma nat_toString_digits: "set (nat_toString n) \<subseteq> set ''0123456789''"
proof (induction n rule: nat_toString.induct)
  case (1 n)
  show ?case
  proof (cases "n < 10")
    case True
    with digit_char_in[of n] show ?thesis by (subst nat_toString.simps) simp
  next
    case False
    with 1 digit_char_in[of "n mod 10"] show ?thesis by (subst nat_toString.simps) simp
  qed
qed

lemma nat_toString_nonempty: "nat_toString n \<noteq> []"
  by (subst nat_toString.simps) simp

lemma parse_digits_append:
  "parse_digits acc (s @ [c]) =
     (case parse_digits acc s of None \<Rightarrow> None
      | Some r \<Rightarrow> (case digit_val c of None \<Rightarrow> None | Some d \<Rightarrow> Some (10 * r + d)))"
  by (induction s arbitrary: acc) (auto split: option.splits)

lemma parse_digits_nat_toString: "parse_digits 0 (nat_toString n) = Some n"
proof (induction n rule: nat_toString.induct)
  case (1 n)
  show ?case
  proof (cases "n < 10")
    case True
    then show ?thesis by (subst nat_toString.simps) (simp add: digit_val_digit_char)
  next
    case False
    with 1 have "parse_digits 0 (nat_toString (n div 10)) = Some (n div 10)" by simp
    with False show ?thesis
      by (subst nat_toString.simps) (simp add: parse_digits_append digit_val_digit_char)
  qed
qed

lemma parse_nat_nat_toString: "parse_nat (nat_toString n) = Some n"
  by (simp add: parse_nat_def nat_toString_nonempty parse_digits_nat_toString)

lemma nat_toString_hd: "\<exists>c cs. nat_toString n = c # cs \<and> c \<in> set ''0123456789''"
  using nat_toString_nonempty[of n] nat_toString_digits[of n]
  by (cases "nat_toString n") auto

lemma parse_int_int_toString: "parse_int (int_toString i) = Some i"
proof (cases "i < 0")
  case True
  then show ?thesis by (simp add: int_toString_def parse_int_def parse_nat_nat_toString)
next
  case False
  obtain c cs where c: "nat_toString (nat i) = c # cs" "c \<in> set ''0123456789''"
    using nat_toString_hd by blast
  then have "c \<noteq> CHR ''-''" by auto
  with False c parse_nat_nat_toString[of "nat i"] show ?thesis
    by (simp add: int_toString_def parse_int_def)
qed

lemma int_toString_shape:
  "int_toString i \<noteq> [] \<and> int_toString i \<noteq> ''Infinity'' \<and> int_toString i \<noteq> ''-Infinity''"
proof -
  obtain c cs where c: "nat_toString (nat i) = c # cs" "c \<in> set ''0123456789''"
    using nat_toString_hd by blast
  obtain c' cs' where c': "nat_toString (nat (- i)) = c' # cs'" "c' \<in> set ''0123456789''"
    using nat_toString_hd by blast
  show ?thesis using c c' by (auto simp: int_toString_def)
qed

lemma toNumber_number_toString: "toNumber (number_toString x) = x"
proof (cases x)
  case (Finite i)
  with int_toString_shape[of i] show ?thesis
    by (simp add: toNumber_def parse_int_int_toString)
qed (simp_all add: toNumber_def parse_int_def parse_nat_def digit_val_def)

lemma toBigInt_int_toString: "toBigInt (int_toString i) = Inr i"
  using int_toString_shape[of i] by (simp add: toBigInt_def parse_int_int_toString)

lemma decode_primitive_encode_child:
  "is_primitive v \<Longrightarrow> \<exists>t x. encode_child K v = Primitive t x \<and> decode_primitive t x = Inr v"
  by (cases v)
    (auto simp: decode_primitive_def toNumber_number_toString toBigInt_int_toString bool_toString_def)

lemma split_commas_plain: "CHR '','' \<notin> set s \<Longrightarrow> split_commas s = [s]"
  by (induction s) auto

lemma split_commas_first:
  "CHR '','' \<notin> set s \<Longrightarrow> split_commas (s @ CHR '','' # t) = s # split_commas t"
  by (induction s) auto

lemma split_join_commas:
  "xs \<noteq> [] \<Longrightarrow> \<forall>s \<in> set xs. CHR '','' \<notin> set s \<Longrightarrow> split_commas (join_commas xs) = xs"
proof (induction xs rule: join_commas.induct)
  case (3 s t ss)
  then show ?case by (simp add: split_commas_first)
qed (simp_all add: split_commas_plain)

lemma nat_toString_no_comma: "CHR '','' \<notin> set (nat_toString n)"
  using nat_toString_digits[of n] by auto

lemma toUint8_roundtrip: "toUint8 (toNumber (nat_toString (unat (b :: 8 word)))) = b"
proof -
  have "number_toString (Finite (int (unat b))) = nat_toString (unat b)"
    by (simp add: int_toString_def)
  from toNumber_number_toString[of "Finite (int (unat b))", unfolded this]
  show ?thesis by simp
qed

lemma decode_buffer_bytes_roundtrip:
  "decode_buffer_bytes (int (length bytes)) (join_commas (map (\<lambda>b. nat_toString (unat b)) bytes))
   = Inr bytes"
proof (cases "bytes = []")
  case True
  then show ?thesis by (simp add: decode_buffer_bytes_def)
next
  case False
  let ?parts = "map (\<lambda>b. nat_toString (unat b)) bytes"
  have "split_commas (join_commas ?parts) = ?parts"
    using False by (intro split_join_commas) (auto simp: nat_toString_no_comma)
  moreover have "map (\<lambda>i. if i < length ?parts then toUint8 (toNumber (?parts ! i)) else 0)
                   [0 ..< length bytes] = bytes"
    by (rule nth_equalityI) (simp_all add: toUint8_roundtrip)
  ultimately show ?thesis by (simp add: decode_buffer_bytes_def Let_def)
qed

section \<open>The decoder rebuilds the graph\<close>

lemma registered_mono: "registered K m c \<Longrightarrow> m \<subseteq>\<^sub>m m' \<Longrightarrow> registered K m' c"
  unfolding registered_def by (auto dest: map_le_implies_dom_le)

lemma image_val_mono:
  assumes "registered K m c" "m \<subseteq>\<^sub>m m'"
  shows "image_val m' K c = image_val m K c"
proof (cases "is_primitive c")
  case False
  with assms(1) obtain w where w: "m (indexOf K c) = Some w" by (auto simp: registered_def)
  with assms(2) have "m' (indexOf K c) = Some w" by (auto simp: map_le_def dom_def)
  with w False show ?thesis by (simp add: image_val_def)
qed (simp add: image_val_def)

lemma image_obj_cong:
  assumes "\<forall>c \<in> set (children ob). f c = g c"
  shows "image_obj f ob = image_obj g ob"
  using assms by (cases ob) auto

lemma image_obj_mono:
  assumes "\<forall>c \<in> set (children ob). registered K m c" "m \<subseteq>\<^sub>m m'"
  shows "image_obj (image_val m' K) ob = image_obj (image_val m K) ob"
  by (rule image_obj_cong) (use assms image_val_mono in blast)

lemma done_id_mono:
  assumes d: "done_id h K s i" and le: "fst s \<subseteq>\<^sub>m fst s'"
    and same: "\<And>a'. fst s i = Some (VObj a') \<Longrightarrow> snd s' ! a' = snd s ! a'"
  shows "done_id h K s' i"
proof -
  from d obtain a a' where i: "0 \<le> i" "i < int (length K)" "K ! nat i = VObj a"
    and m: "fst s i = Some (VObj a')"
    and ob: "snd s ! a' = image_obj (image_val (fst s) K) (h ! a)"
    and reg: "\<forall>c \<in> set (children (h ! a)). registered K (fst s) c"
    unfolding done_id_def by blast
  from m le have m': "fst s' i = Some (VObj a')" by (auto simp: map_le_def dom_def)
  have "snd s' ! a' = image_obj (image_val (fst s') K) (h ! a)"
    using same[OF m] ob image_obj_mono[OF reg le] by simp
  moreover have "\<forall>c \<in> set (children (h ! a)). registered K (fst s') c"
    using reg le registered_mono by blast
  ultimately show ?thesis unfolding done_id_def using i m' by blast
qed

lemma grows_refl: "dinv K s \<Longrightarrow> grows h K s s"
  by (simp add: grows_def)

lemma grows_trans:
  assumes 1: "grows h K s s'" and 2: "grows h K s' s''" and inv: "dinv K s'"
  shows "grows h K s s''"
proof -
  from 1 obtain new where le: "fst s \<subseteq>\<^sub>m fst s'" and hp: "snd s' = snd s @ new"
    and d1: "\<forall>i \<in> dom (fst s') - dom (fst s).
         done_id h K s' i \<and> (\<exists>a'. fst s' i = Some (VObj a') \<and> length (snd s) \<le> a')"
    unfolding grows_def by blast
  from 2 obtain new' where inv'': "dinv K s''" and le': "fst s' \<subseteq>\<^sub>m fst s''"
    and hp': "snd s'' = snd s' @ new'"
    and d2: "\<forall>i \<in> dom (fst s'') - dom (fst s').
         done_id h K s'' i \<and> (\<exists>a'. fst s'' i = Some (VObj a') \<and> length (snd s') \<le> a')"
    unfolding grows_def by blast
  have "done_id h K s'' i \<and> (\<exists>a'. fst s'' i = Some (VObj a') \<and> length (snd s) \<le> a')"
    if i: "i \<in> dom (fst s'') - dom (fst s)" for i
  proof (cases "i \<in> dom (fst s')")
    case True
    with i d1 obtain a' where d: "done_id h K s' i" and m: "fst s' i = Some (VObj a')"
      and ge: "length (snd s) \<le> a'" by blast
    from inv m have lt: "a' < length (snd s')" unfolding dinv_def by fastforce
    have "done_id h K s'' i"
    proof (rule done_id_mono[OF d le'])
      fix b assume "fst s' i = Some (VObj b)"
      with m have "b = a'" by simp
      with lt show "snd s'' ! b = snd s' ! b" unfolding hp' by (simp add: nth_append)
    qed
    moreover from m le' have "fst s'' i = Some (VObj a')" by (auto simp: map_le_def dom_def)
    ultimately show ?thesis using ge by blast
  next
    case False
    with i d2 obtain a' where "done_id h K s'' i" "fst s'' i = Some (VObj a')"
      "length (snd s') \<le> a'" by blast
    then show ?thesis using hp by auto
  qed
  moreover have "fst s \<subseteq>\<^sub>m fst s''" using le le' by (rule map_le_trans)
  moreover have "snd s'' = snd s @ (new @ new')" using hp hp' by simp
  ultimately show ?thesis unfolding grows_def using inv'' by blast
qed

lemma dec_fill:
  fixes body :: "'x \<Rightarrow> decode_state \<Rightarrow> decode_state result"
    and emit :: "(val \<Rightarrow> val) \<Rightarrow> 'x \<Rightarrow> 'e"
  assumes body: "\<And>x s s2. x \<in> set xs \<Longrightarrow> dinv K s \<Longrightarrow> length dh < length (snd s) \<Longrightarrow>
        body x s = Some (Inr s2) \<Longrightarrow>
        \<exists>s1. grows h K s s1 \<and> (\<forall>c \<in> set (kids x). registered K (fst s1) c) \<and>
          s2 = (fst s1, (snd s1)[length dh := put (snd s1 ! length dh) (emit (image_val (fst s1) K) x)])"
    and emit_cong: "\<And>f g x. \<forall>c \<in> set (kids x). f c = g c \<Longrightarrow> emit f x = emit g x"
    and run: "for_of body xs (m0, dh @ [shell]) = Some (Inr s')"
    and inv0: "dinv K (m0, dh @ [shell])"
  shows "dinv K s' \<and> m0 \<subseteq>\<^sub>m fst s' \<and>
         (\<exists>rest. snd s' = dh @ [foldl put shell (map (emit (image_val (fst s') K)) xs)] @ rest) \<and>
         (\<forall>x \<in> set xs. \<forall>c \<in> set (kids x). registered K (fst s') c) \<and>
         (\<forall>j \<in> dom (fst s') - dom m0.
            done_id h K s' j \<and> (\<exists>a'. fst s' j = Some (VObj a') \<and> length dh < a'))"
proof -
  let ?a0 = "length dh"
  define I where "I = (\<lambda>pre (s :: decode_state). dinv K s \<and> m0 \<subseteq>\<^sub>m fst s \<and>
         (\<exists>rest. snd s = dh @ [foldl put shell (map (emit (image_val (fst s) K)) pre)] @ rest) \<and>
         (\<forall>x \<in> set pre. \<forall>c \<in> set (kids x). registered K (fst s) c) \<and>
         (\<forall>j \<in> dom (fst s) - dom m0.
            done_id h K s j \<and> (\<exists>a'. fst s j = Some (VObj a') \<and> ?a0 < a')))"
  have init: "I [] (m0, dh @ [shell])" using inv0 by (simp add: I_def)
  have step: "I (pre @ [x]) t'" if x: "x \<in> set xs" and I: "I pre t" and b: "body x t = Some (Inr t')"
    for x pre t t'
  proof -
    from I obtain rest where inv: "dinv K t" and le0: "m0 \<subseteq>\<^sub>m fst t"
      and hp: "snd t = dh @ [foldl put shell (map (emit (image_val (fst t) K)) pre)] @ rest"
      and kp: "\<forall>x \<in> set pre. \<forall>c \<in> set (kids x). registered K (fst t) c"
      and dn: "\<forall>j \<in> dom (fst t) - dom m0.
            done_id h K t j \<and> (\<exists>a'. fst t j = Some (VObj a') \<and> ?a0 < a')"
      unfolding I_def by blast
    have lt: "?a0 < length (snd t)" using hp by simp
    from body[OF x inv lt b] obtain s1 where g: "grows h K t s1"
      and kx: "\<forall>c \<in> set (kids x). registered K (fst s1) c"
      and t': "t' = (fst s1, (snd s1)[?a0 := put (snd s1 ! ?a0) (emit (image_val (fst s1) K) x)])"
      by blast
    from g obtain new where inv1: "dinv K s1" and le: "fst t \<subseteq>\<^sub>m fst s1"
      and hp1: "snd s1 = snd t @ new"
      and d1: "\<forall>i \<in> dom (fst s1) - dom (fst t).
         done_id h K s1 i \<and> (\<exists>a'. fst s1 i = Some (VObj a') \<and> length (snd t) \<le> a')"
      unfolding grows_def by blast
    let ?P = "foldl put shell (map (emit (image_val (fst t) K)) pre)"
    have hp1': "snd s1 = dh @ [?P] @ (rest @ new)" using hp hp1 by simp
    have at: "snd s1 ! ?a0 = ?P" unfolding hp1' by (simp add: nth_append)
    have pre_eq: "map (emit (image_val (fst t) K)) pre = map (emit (image_val (fst s1) K)) pre"
    proof (rule map_cong[OF refl])
      fix y assume "y \<in> set pre"
      with kp have "\<forall>c \<in> set (kids y). registered K (fst t) c" by blast
      then have "\<forall>c \<in> set (kids y). image_val (fst t) K c = image_val (fst s1) K c"
        using image_val_mono[OF _ le] by simp
      then show "emit (image_val (fst t) K) y = emit (image_val (fst s1) K) y"
        by (rule emit_cong)
    qed
    have fst': "fst t' = fst s1" and snd': "snd t' = (snd s1)[?a0 := put ?P (emit (image_val (fst s1) K) x)]"
      using t' at by simp_all
    have hp': "snd t' = dh @ [foldl put shell (map (emit (image_val (fst t') K)) (pre @ [x]))] @ (rest @ new)"
      unfolding snd' fst' hp1' pre_eq by (simp add: list_update_append)
    have inv': "dinv K t'" using inv1 unfolding dinv_def fst' snd' by simp
    have le': "m0 \<subseteq>\<^sub>m fst t'" unfolding fst' using le0 le by (rule map_le_trans)
    have kp': "\<forall>y \<in> set (pre @ [x]). \<forall>c \<in> set (kids y). registered K (fst t') c"
      unfolding fst' using kp kx registered_mono[OF _ le] by auto
    have dn': "done_id h K t' j \<and> (\<exists>a'. fst t' j = Some (VObj a') \<and> ?a0 < a')"
      if j: "j \<in> dom (fst t') - dom m0" for j
    proof (cases "j \<in> dom (fst t)")
      case True
      with j dn obtain a' where d: "done_id h K t j" and m: "fst t j = Some (VObj a')"
        and gt: "?a0 < a'" unfolding fst' by blast
      from inv m have lt': "a' < length (snd t)" unfolding dinv_def by fastforce
      have "done_id h K t' j"
      proof (rule done_id_mono[OF d])
        show "fst t \<subseteq>\<^sub>m fst t'" unfolding fst' by (rule le)
      next
        fix b assume "fst t j = Some (VObj b)"
        with m have "b = a'" by simp
        with gt lt' show "snd t' ! b = snd t ! b"
          unfolding snd' hp1 by (simp add: nth_append)
      qed
      moreover from m le have "fst t' j = Some (VObj a')"
        unfolding fst' by (auto simp: map_le_def dom_def)
      ultimately show ?thesis using gt by blast
    next
      case False
      with j d1 obtain a' where d: "done_id h K s1 j" and m: "fst s1 j = Some (VObj a')"
        and ge: "length (snd t) \<le> a'" unfolding fst' by blast
      have "done_id h K t' j"
      proof (rule done_id_mono[OF d])
        show "fst s1 \<subseteq>\<^sub>m fst t'" unfolding fst' by simp
      next
        fix b assume "fst s1 j = Some (VObj b)"
        with m have "b = a'" by simp
        with ge lt show "snd t' ! b = snd s1 ! b" unfolding snd' by simp
      qed
      with m ge lt show ?thesis unfolding fst' by auto
    qed
    from inv' le' hp' kp' dn' show ?thesis unfolding I_def by blast
  qed
  from for_of_invariant[where I = I and seen = "[]", OF run init step]
  show ?thesis by (simp add: I_def)
qed

lemma dec_okD:
  "dec_ok h K f \<Longrightarrow> child_ok K v \<Longrightarrow> dinv K s \<Longrightarrow> f (encode_child K v) s = Some (Inr (w, s')) \<Longrightarrow>
   grows h K s s' \<and> w = image_val (fst s') K v \<and> registered K (fst s') v"
  unfolding dec_ok_def by blast

lemma fill_body_one:
  assumes ok: "dec_ok h K f" and c: "child_ok K c" and inv: "dinv K s"
    and run: "and_then (f (encode_child K c) s) (\<lambda>(dv, s1). k dv s1) = Some (Inr s2)"
    and k: "\<And>dv s1. k dv s1 = Some (Inr s2) \<Longrightarrow> s2 = (fst s1, (snd s1)[a0 := g (snd s1 ! a0) dv])"
  shows "\<exists>s1. grows h K s s1 \<and> (\<forall>c' \<in> set [c]. registered K (fst s1) c') \<and>
           s2 = (fst s1, (snd s1)[a0 := g (snd s1 ! a0) (image_val (fst s1) K c)])"
proof -
  from and_then_pair_Inr[OF run] obtain dv s1 where r: "f (encode_child K c) s = Some (Inr (dv, s1))"
    and kk: "k dv s1 = Some (Inr s2)" by blast
  from dec_okD[OF ok c inv r] k[OF kk] show ?thesis by (intro exI[of _ s1]) simp
qed

lemma fill_body_two:
  assumes ok: "dec_ok h K f" and c1: "child_ok K c1" and c2: "child_ok K c2" and inv: "dinv K s"
    and run: "and_then (f (encode_child K c1) s) (\<lambda>(dk, s1).
                and_then (f (encode_child K c2) s1) (\<lambda>(dv, s2). k dk dv s2)) = Some (Inr s3)"
    and k: "\<And>dk dv s2. k dk dv s2 = Some (Inr s3) \<Longrightarrow>
              s3 = (fst s2, (snd s2)[a0 := g (snd s2 ! a0) (dk, dv)])"
  shows "\<exists>s2. grows h K s s2 \<and> (\<forall>c' \<in> set [c1, c2]. registered K (fst s2) c') \<and>
           s3 = (fst s2, (snd s2)[a0 := g (snd s2 ! a0)
                   (image_val (fst s2) K c1, image_val (fst s2) K c2)])"
proof -
  from and_then_pair_Inr[OF run] obtain dk s1 where
    r1: "f (encode_child K c1) s = Some (Inr (dk, s1))"
    and run2: "and_then (f (encode_child K c2) s1) (\<lambda>(dv, s2). k dk dv s2) = Some (Inr s3)" by blast
  from and_then_pair_Inr[OF run2] obtain dv s2 where
    r2: "f (encode_child K c2) s1 = Some (Inr (dv, s2))" and kk: "k dk dv s2 = Some (Inr s3)" by blast
  from dec_okD[OF ok c1 inv r1] have g1: "grows h K s s1" and dk: "dk = image_val (fst s1) K c1"
    and reg1: "registered K (fst s1) c1" by auto
  from g1 have inv1: "dinv K s1" by (simp add: grows_def)
  from dec_okD[OF ok c2 inv1 r2] have g2: "grows h K s1 s2" and dv: "dv = image_val (fst s2) K c2"
    and reg2: "registered K (fst s2) c2" by auto
  from g2 have le: "fst s1 \<subseteq>\<^sub>m fst s2" by (simp add: grows_def)
  have dk': "dk = image_val (fst s2) K c1" using dk image_val_mono[OF reg1 le] by simp
  have "grows h K s s2" by (rule grows_trans[OF g1 g2 inv1])
  with registered_mono[OF reg1 le] reg2 k[OF kk] dk' dv show ?thesis
    by (intro exI[of _ s2]) simp
qed

lemma image_val_inj:
  assumes inv: "dinv K s" and K: "\<forall>k \<in> set K. \<exists>a. k = VObj a"
    and r1: "registered K (fst s) c1" and r2: "registered K (fst s) c2"
    and eq: "image_val (fst s) K c1 = image_val (fst s) K c2"
  shows "c1 = c2"
proof -
  have obj: "\<exists>a'. image_val (fst s) K c = VObj a' \<and> fst s (indexOf K c) = Some (VObj a')"
    if "registered K (fst s) c" "\<not> is_primitive c" for c
  proof -
    from that obtain w where w: "fst s (indexOf K c) = Some w" by (auto simp: registered_def)
    with inv obtain a' where "w = VObj a'" unfolding dinv_def by blast
    with w that(2) show ?thesis by (simp add: image_val_def)
  qed
  have prim: "image_val (fst s) K c = c" if "is_primitive c" for c
    using that by (simp add: image_val_def)
  show ?thesis
  proof (cases "is_primitive c1")
    case p1: True
    show ?thesis
    proof (cases "is_primitive c2")
      case True
      with p1 eq prim show ?thesis by simp
    next
      case False
      from obj[OF r2 False] obtain a' where "image_val (fst s) K c2 = VObj a'" by blast
      with eq prim[OF p1] have "c1 = VObj a'" by simp
      with p1 show ?thesis by simp
    qed
  next
    case n1: False
    from obj[OF r1 n1] obtain a1 where a1: "image_val (fst s) K c1 = VObj a1"
      "fst s (indexOf K c1) = Some (VObj a1)" by blast
    show ?thesis
    proof (cases "is_primitive c2")
      case True
      with eq prim[OF True] a1 have "c2 = VObj a1" by simp
      with True show ?thesis by simp
    next
      case False
      from obj[OF r2 False] obtain a2 where a2: "image_val (fst s) K c2 = VObj a2"
        "fst s (indexOf K c2) = Some (VObj a2)" by blast
      from a1 a2 eq have e: "fst s (indexOf K c1) = fst s (indexOf K c2)" by simp
      from r1 n1 have d1: "indexOf K c1 \<in> dom (fst s)" and m1: "c1 \<in> set K"
        by (auto simp: registered_def)
      from r2 False have d2: "indexOf K c2 \<in> dom (fst s)" and m2: "c2 \<in> set K"
        by (auto simp: registered_def)
      from inv have "inj_on (fst s) (dom (fst s))" by (simp add: dinv_def)
      from inj_onD[OF this e d1 d2] have "indexOf K c1 = indexOf K c2" .
      with indexOf_nth[OF m1] indexOf_nth[OF m2] show ?thesis by metis
    qed
  qed
qed

lemma assoc_set_fresh: "k \<notin> set (map fst es) \<Longrightarrow> assoc_set es k v = es @ [(k, v)]"
  by (induction es) auto

lemma fold_map_put:
  "distinct (map fst (acc @ items)) \<Longrightarrow>
   foldl (\<lambda>ob (k, v). map_put ob k v) (MapObj acc) items = MapObj (acc @ items)"
proof (induction items arbitrary: acc)
  case (Cons x items)
  obtain k v where x: "x = (k, v)" by (cases x)
  from Cons.prems have "k \<notin> set (map fst acc)" unfolding x by auto
  then have "map_put (MapObj acc) k v = MapObj (acc @ [(k, v)])" by (simp add: assoc_set_fresh)
  with Cons.IH[of "acc @ [(k, v)]"] Cons.prems show ?case unfolding x by simp
qed simp

lemma fold_set_insert:
  "distinct (acc @ items) \<Longrightarrow> foldl set_insert (SetObj acc) items = SetObj (acc @ items)"
proof (induction items arbitrary: acc)
  case (Cons x items)
  from Cons.prems have "x \<notin> set acc" by auto
  with Cons.IH[of "acc @ [x]"] Cons.prems show ?case by simp
qed simp

lemma fold_put_plain:
  "distinct (map fst (acc @ items)) \<Longrightarrow> ''__proto__'' \<notin> set (map fst items) \<Longrightarrow>
   foldl put_property (PlainObj acc) items = PlainObj (acc @ items)"
proof (induction items arbitrary: acc)
  case (Cons x items)
  obtain k v where x: "x = (k, v)" by (cases x)
  from Cons.prems have "k \<notin> set (map fst acc)" "k \<noteq> ''__proto__''" unfolding x by auto
  then have "put_property (PlainObj acc) (k, v) = PlainObj (acc @ [(k, v)])"
    by (simp add: put_property_def set_property_def assoc_set_fresh)
  with Cons.IH[of "acc @ [(k, v)]"] Cons.prems show ?case unfolding x by simp
qed simp

lemma array_index_not_special:
  "array_index key = Some i \<Longrightarrow> key \<noteq> ''length'' \<and> key \<noteq> ''__proto__''"
  by (auto simp: array_index_def parse_nat_def digit_val_def split: option.splits if_splits)

lemma fold_put_array:
  assumes "distinct (map fst (acc @ items))"
    and "\<forall>key \<in> set (map fst items). case array_index key of Some i \<Rightarrow> i < len | None \<Rightarrow> False"
  shows "foldl put_property (ArrayObj len acc) items = ArrayObj len (acc @ items)"
  using assms
proof (induction items arbitrary: acc)
  case (Cons x items)
  obtain k v where x: "x = (k, v)" by (cases x)
  from Cons.prems obtain i where i: "array_index k = Some i" "i < len"
    unfolding x by (auto split: option.splits)
  from Cons.prems have "k \<notin> set (map fst acc)" unfolding x by auto
  with i array_index_not_special[OF i(1)]
  have "put_property (ArrayObj len acc) (k, v) = ArrayObj len (acc @ [(k, v)])"
    by (simp add: put_property_def set_property_def assoc_set_fresh max_def)
  with Cons.IH[of "acc @ [(k, v)]"] Cons.prems show ?case unfolding x by simp
qed simp

lemma put_array_length:
  assumes "int len < 4294967296"
    and "\<forall>key \<in> set (map fst ps). case array_index key of Some i \<Rightarrow> i < len | None \<Rightarrow> False"
  shows "put_property (ArrayObj len' ps) (''length'', VNumber (Finite (int len))) = ArrayObj len ps"
proof -
  have "filter (\<lambda>(key', _). case array_index key' of None \<Rightarrow> True | Some i \<Rightarrow> i < nat (int len)) ps = ps"
    using assms(2) by (auto simp: filter_id_conv split: option.splits)
  with assms(1) show ?thesis by (simp add: put_property_def set_property_def)
qed

lemma for_of_map: "for_of body (map g xs) s = for_of (\<lambda>x. body (g x)) xs s"
  by (induction xs arbitrary: s) (auto intro: arg_cong2[where f = and_then])

lemma dinv_alloc:
  assumes inv: "dinv K (m, dh)" and i: "0 \<le> i" "i < int (length K)" and fresh: "m i = None"
  shows "dinv K (m(i \<mapsto> VObj (length dh)), dh @ [ob])"
proof -
  from inv have rng: "\<And>j w. m j = Some w \<Longrightarrow> 0 \<le> j \<and> j < int (length K) \<and> (\<exists>a. w = VObj a \<and> a < length dh)"
    and inj: "inj_on m (dom m)" unfolding dinv_def by auto
  have "inj_on (m(i \<mapsto> VObj (length dh))) (dom (m(i \<mapsto> VObj (length dh))))"
  proof (rule inj_onI)
    fix x y assume x: "x \<in> dom (m(i \<mapsto> VObj (length dh)))"
      and y: "y \<in> dom (m(i \<mapsto> VObj (length dh)))"
      and e: "(m(i \<mapsto> VObj (length dh))) x = (m(i \<mapsto> VObj (length dh))) y"
    show "x = y"
    proof (cases "x = i")
      case xi: True
      show ?thesis
      proof (cases "y = i")
        case False
        with y obtain w where w: "m y = Some w" by auto
        with rng obtain b where "w = VObj b" "b < length dh" by blast
        with e xi False w show ?thesis by simp
      qed (simp add: xi)
    next
      case xi: False
      with x obtain w where w: "m x = Some w" by auto
      with rng obtain b where b: "w = VObj b" "b < length dh" by blast
      show ?thesis
      proof (cases "y = i")
        case True
        with e xi w b show ?thesis by simp
      next
        case False
        with e xi have "m x = m y" by simp
        moreover from x y xi False have "x \<in> dom m" "y \<in> dom m" by auto
        ultimately show ?thesis using inj by (auto dest: inj_onD)
      qed
    qed
  qed
  moreover have "0 \<le> j \<and> j < int (length K) \<and> (\<exists>a. w = VObj a \<and> a < length (dh @ [ob]))"
    if "(m(i \<mapsto> VObj (length dh))) j = Some w" for j w
  proof (cases "j = i")
    case True
    with that i show ?thesis by auto
  next
    case False
    with that rng[of j w] show ?thesis by auto
  qed
  ultimately show ?thesis unfolding dinv_def by simp
qed

lemma fill_grows:
  assumes i: "0 \<le> i" "i < int (length K)" "K ! nat i = VObj a" "indexOf K (VObj a) = i"
      "VObj a \<in> set K"
    and fresh: "m i = None"
    and inv': "dinv K s'" and le: "m(i \<mapsto> VObj (length dh)) \<subseteq>\<^sub>m fst s'"
    and hp: "snd s' = dh @ [ob] @ rest"
    and dn: "\<forall>j \<in> dom (fst s') - dom (m(i \<mapsto> VObj (length dh))).
               done_id h K s' j \<and> (\<exists>a'. fst s' j = Some (VObj a') \<and> length dh < a')"
    and ob: "ob = image_obj (image_val (fst s') K) (h ! a)"
    and reg: "\<forall>c \<in> set (children (h ! a)). registered K (fst s') c"
  shows "grows h K (m, dh) s' \<and> VObj (length dh) = image_val (fst s') K (VObj a) \<and>
         registered K (fst s') (VObj a)"
proof -
  from le have mi: "fst s' i = Some (VObj (length dh))" by (auto simp: map_le_def)
  have le0: "m \<subseteq>\<^sub>m fst s'"
    using le fresh by (auto simp: map_le_def dom_def split: if_splits)
  have di: "done_id h K s' i"
    unfolding done_id_def using i mi hp ob reg by (auto simp: nth_append)
  have "done_id h K s' j \<and> (\<exists>a'. fst s' j = Some (VObj a') \<and> length (snd (m, dh)) \<le> a')"
    if j: "j \<in> dom (fst s') - dom (fst (m, dh))" for j
  proof (cases "j = i")
    case True
    with di mi show ?thesis by simp
  next
    case False
    with j have "j \<in> dom (fst s') - dom (m(i \<mapsto> VObj (length dh)))" by auto
    with dn show ?thesis by fastforce
  qed
  then have "grows h K (m, dh) s'"
    unfolding grows_def using inv' le0 hp by auto
  moreover have "VObj (length dh) = image_val (fst s') K (VObj a)"
    using mi i(4) by (simp add: image_val_def)
  moreover have "registered K (fst s') (VObj a)"
    using mi i(4,5) by (auto simp: registered_def)
  ultimately show ?thesis by blast
qed

lemma canonical_key:
  assumes can: "canonical h K objects" and c: "child_ok K (VObj a)"
  shows "VObj a \<in> set K \<and> a < length h \<and> supported (h ! a) \<and>
         (\<forall>c \<in> set (children (h ! a)). child_ok K c) \<and>
         0 \<le> indexOf K (VObj a) \<and> indexOf K (VObj a) < int (length K) \<and>
         K ! nat (indexOf K (VObj a)) = VObj a \<and>
         objects ! nat (indexOf K (VObj a)) = record_of K (h ! a) \<and> length objects = length K"
proof -
  from c have m: "VObj a \<in> set K" by (simp add: child_ok_def)
  with can have "a < length h" "supported (h ! a)" "\<forall>c \<in> set (children (h ! a)). child_ok K c"
    unfolding canonical_def by auto
  moreover have r: "0 \<le> indexOf K (VObj a)" "indexOf K (VObj a) < int (length K)"
    using m by (simp_all add: indexOf_nonneg_iff indexOf_less)
  moreover note n = indexOf_nth[OF m]
  moreover from can have o: "objects = map (\<lambda>k. record_of K (h ! addr_of k)) K"
    by (simp add: canonical_def)
  have "objects ! nat (indexOf K (VObj a)) = record_of K (h ! a)"
  proof -
    define i where "i = nat (indexOf K (VObj a))"
    have "i < length K" "K ! i = VObj a" using r n by (simp_all add: i_def)
    then have "map (\<lambda>k. record_of K (h ! addr_of k)) K ! i = record_of K (h ! a)" by simp
    then show ?thesis unfolding o i_def .
  qed
  moreover have "length objects = length K" unfolding o by simp
  ultimately show ?thesis using m by blast
qed

lemma reflect_set_put:
  "reflect_set hp a key v = Inr hp' \<Longrightarrow> hp' = hp[a := put_property (hp ! a) (key, v)]"
  by (auto simp: reflect_set_def put_property_def split: sum.splits)

lemma image_inj_on:
  assumes inv: "dinv K s" and can: "canonical h K objects"
    and reg: "\<forall>c \<in> C. registered K (fst s) c"
  shows "inj_on (image_val (fst s) K) C"
proof (rule inj_onI)
  fix x y assume "x \<in> C" "y \<in> C" "image_val (fst s) K x = image_val (fst s) K y"
  moreover from can have "\<forall>k \<in> set K. \<exists>a. k = VObj a" unfolding canonical_def by blast
  ultimately show "x = y" using image_val_inj[OF inv _ _ _ ] reg by blast
qed

lemma dec_buffer_call:
  assumes can: "canonical h K objects" and c: "child_ok K (VObj b)"
    and b: "h ! b = ArrayBufferObj bytes"
    and run: "structuredDeserializeInternal n objects (encode_child K (VObj b)) s = Some (Inr (w, s1))"
  shows "dom (fst s1) \<subseteq> insert (indexOf K (VObj b)) (dom (fst s))"
proof -
  note k = canonical_key[OF can c]
  obtain n' where n: "n = Suc n'" using run by (cases n) (auto simp: structuredDeserializeInternal.simps)
  show ?thesis
  proof (cases "fst s (indexOf K (VObj b))")
    case None
    with run k b show ?thesis
      unfolding n
      by (auto simp: structuredDeserializeInternal.simps Let_def return_def throw_def
          decode_buffer_bytes_roundtrip split: if_splits)
  next
    case (Some w')
    with run show ?thesis unfolding n
      by (auto simp: structuredDeserializeInternal.simps return_def)
  qed
qed

lemma fill_properties:
  assumes ok: "dec_ok h K f" and kids: "\<forall>c \<in> snd ` set xs. child_ok K c"
    and run: "for_of (\<lambda>(key, sv) s. and_then (f sv s) (\<lambda>(dv, s1).
                 case reflect_set (snd s1) (length dh) key dv of
                   Inl e \<Rightarrow> throw e | Inr heap' \<Rightarrow> return (fst s1, heap')))
               (map (\<lambda>(k, c). (k, encode_child K c)) xs) (m0, dh @ [shell]) = Some (Inr s')"
    and inv0: "dinv K (m0, dh @ [shell])"
  shows "dinv K s' \<and> m0 \<subseteq>\<^sub>m fst s' \<and>
         (\<exists>rest. snd s' = dh @ [foldl put_property shell
                     (map (\<lambda>(k, c). (k, image_val (fst s') K c)) xs)] @ rest) \<and>
         (\<forall>c \<in> snd ` set xs. registered K (fst s') c) \<and>
         (\<forall>j \<in> dom (fst s') - dom m0.
            done_id h K s' j \<and> (\<exists>a'. fst s' j = Some (VObj a') \<and> length dh < a'))"
proof -
  let ?body = "\<lambda>x. (\<lambda>(key, sv) s. and_then (f sv s) (\<lambda>(dv, s1).
                 case reflect_set (snd s1) (length dh) key dv of
                   Inl e \<Rightarrow> throw e | Inr heap' \<Rightarrow> return (fst s1, heap')))
               ((\<lambda>(k, c). (k, encode_child K c)) x)"
  have run': "for_of ?body xs (m0, dh @ [shell]) = Some (Inr s')"
    using run by (simp only: for_of_map)
  have "dinv K s' \<and> m0 \<subseteq>\<^sub>m fst s' \<and>
         (\<exists>rest. snd s' = dh @ [foldl put_property shell
                     (map ((\<lambda>g (k, c). (k, g c)) (image_val (fst s') K)) xs)] @ rest) \<and>
         (\<forall>x \<in> set xs. \<forall>c \<in> set ((\<lambda>(k, c). [c]) x). registered K (fst s') c) \<and>
         (\<forall>j \<in> dom (fst s') - dom m0.
            done_id h K s' j \<and> (\<exists>a'. fst s' j = Some (VObj a') \<and> length dh < a'))"
  proof (rule dec_fill[where body = ?body and kids = "\<lambda>(k, c). [c]"
        and emit = "\<lambda>g (k, c). (k, g c)" and put = put_property, OF _ _ run' inv0])
    fix x s s2
    assume x: "x \<in> set xs" and inv: "dinv K s" and b: "?body x s = Some (Inr s2)"
    obtain key c where xc: "x = (key, c)" by (cases x)
    from x kids have c: "child_ok K c" unfolding xc by force
    have "\<exists>s1. grows h K s s1 \<and> (\<forall>c' \<in> set [c]. registered K (fst s1) c') \<and>
           s2 = (fst s1, (snd s1)[length dh := (\<lambda>ob dv. put_property ob (key, dv))
                   (snd s1 ! length dh) (image_val (fst s1) K c)])"
    proof (rule fill_body_one[OF ok c inv, where k = "\<lambda>dv s1.
          case reflect_set (snd s1) (length dh) key dv of
            Inl e \<Rightarrow> throw e | Inr heap' \<Rightarrow> return (fst s1, heap')"])
      show "and_then (f (encode_child K c) s) (\<lambda>(dv, s1).
          case reflect_set (snd s1) (length dh) key dv of
            Inl e \<Rightarrow> throw e | Inr heap' \<Rightarrow> return (fst s1, heap')) = Some (Inr s2)"
        using b unfolding xc by simp
    next
      fix dv s1
      assume "(case reflect_set (snd s1) (length dh) key dv of
            Inl e \<Rightarrow> throw e | Inr heap' \<Rightarrow> return (fst s1, heap')) = Some (Inr s2)"
      then show "s2 = (fst s1, (snd s1)[length dh := put_property (snd s1 ! length dh) (key, dv)])"
        by (auto simp: throw_def return_def split: sum.splits dest: reflect_set_put)
    qed
    then show "\<exists>s1. grows h K s s1 \<and> (\<forall>c \<in> set (case x of (k, c) \<Rightarrow> [c]). registered K (fst s1) c) \<and>
          s2 = (fst s1, (snd s1)[length dh := put_property (snd s1 ! length dh)
                  (case x of (k, c) \<Rightarrow> (k, image_val (fst s1) K c))])"
      unfolding xc by simp
  next
    fix g g' :: "val \<Rightarrow> val" and x :: "string \<times> val"
    assume "\<forall>c \<in> set (case x of (k, c) \<Rightarrow> [c]). g c = g' c"
    then show "(case x of (k, c) \<Rightarrow> (k, g c)) = (case x of (k, c) \<Rightarrow> (k, g' c))"
      by (cases x) simp
  qed
  then show ?thesis by (simp add: case_prod_beta) 
qed

lemma fill_set:
  assumes ok: "dec_ok h K f" and kids: "\<forall>c \<in> set xs. child_ok K c"
    and run: "for_of (\<lambda>sv s. and_then (f sv s) (\<lambda>(dv, s1).
                 return (fst s1, set_add (snd s1) (length dh) dv)))
               (map (encode_child K) xs) (m0, dh @ [shell]) = Some (Inr s')"
    and inv0: "dinv K (m0, dh @ [shell])"
  shows "dinv K s' \<and> m0 \<subseteq>\<^sub>m fst s' \<and>
         (\<exists>rest. snd s' = dh @ [foldl set_insert shell (map (image_val (fst s') K) xs)] @ rest) \<and>
         (\<forall>c \<in> set xs. registered K (fst s') c) \<and>
         (\<forall>j \<in> dom (fst s') - dom m0.
            done_id h K s' j \<and> (\<exists>a'. fst s' j = Some (VObj a') \<and> length dh < a'))"
proof -
  let ?body = "\<lambda>x. (\<lambda>sv s. and_then (f sv s) (\<lambda>(dv, s1).
                 return (fst s1, set_add (snd s1) (length dh) dv))) (encode_child K x)"
  have run': "for_of ?body xs (m0, dh @ [shell]) = Some (Inr s')"
    using run by (simp only: for_of_map)
  have "dinv K s' \<and> m0 \<subseteq>\<^sub>m fst s' \<and>
         (\<exists>rest. snd s' = dh @ [foldl set_insert shell
                     (map ((\<lambda>g c. g c) (image_val (fst s') K)) xs)] @ rest) \<and>
         (\<forall>x \<in> set xs. \<forall>c \<in> set ((\<lambda>c. [c]) x). registered K (fst s') c) \<and>
         (\<forall>j \<in> dom (fst s') - dom m0.
            done_id h K s' j \<and> (\<exists>a'. fst s' j = Some (VObj a') \<and> length dh < a'))"
  proof (rule dec_fill[where body = ?body and kids = "\<lambda>c. [c]"
        and emit = "\<lambda>g c. g c" and put = set_insert, OF _ _ run' inv0])
    fix x s s2
    assume x: "x \<in> set xs" and inv: "dinv K s" and b: "?body x s = Some (Inr s2)"
    from x kids have c: "child_ok K x" by blast
    show "\<exists>s1. grows h K s s1 \<and> (\<forall>c \<in> set [x]. registered K (fst s1) c) \<and>
          s2 = (fst s1, (snd s1)[length dh := set_insert (snd s1 ! length dh)
                  (image_val (fst s1) K x)])"
    proof (rule fill_body_one[OF ok c inv, where k = "\<lambda>dv s1.
          return (fst s1, set_add (snd s1) (length dh) dv)"])
      show "and_then (f (encode_child K x) s) (\<lambda>(dv, s1).
          return (fst s1, set_add (snd s1) (length dh) dv)) = Some (Inr s2)"
        using b by simp
    next
      fix dv s1
      assume "return (fst s1, set_add (snd s1) (length dh) dv) = Some (Inr s2)"
      then show "s2 = (fst s1, (snd s1)[length dh := set_insert (snd s1 ! length dh) dv])"
        by (auto simp: return_def set_add_def)
    qed
  qed simp
  then show ?thesis by simp
qed

lemma fill_map:
  assumes ok: "dec_ok h K f"
    and kids: "\<forall>x \<in> set xs. child_ok K (fst x) \<and> child_ok K (snd x)"
    and run: "for_of (\<lambda>(sk, sv) s. and_then (f sk s) (\<lambda>(dk, s1).
                 and_then (f sv s1) (\<lambda>(dv, s2).
                   return (fst s2, map_set (snd s2) (length dh) dk dv))))
               (map (\<lambda>(k, v). (encode_child K k, encode_child K v)) xs) (m0, dh @ [shell])
             = Some (Inr s')"
    and inv0: "dinv K (m0, dh @ [shell])"
  shows "dinv K s' \<and> m0 \<subseteq>\<^sub>m fst s' \<and>
         (\<exists>rest. snd s' = dh @ [foldl (\<lambda>ob (k, v). map_put ob k v) shell
              (map (\<lambda>(k, v). (image_val (fst s') K k, image_val (fst s') K v)) xs)] @ rest) \<and>
         (\<forall>x \<in> set xs. registered K (fst s') (fst x) \<and> registered K (fst s') (snd x)) \<and>
         (\<forall>j \<in> dom (fst s') - dom m0.
            done_id h K s' j \<and> (\<exists>a'. fst s' j = Some (VObj a') \<and> length dh < a'))"
proof -
  let ?body = "\<lambda>x. (\<lambda>(sk, sv) s. and_then (f sk s) (\<lambda>(dk, s1).
                 and_then (f sv s1) (\<lambda>(dv, s2).
                   return (fst s2, map_set (snd s2) (length dh) dk dv))))
               ((\<lambda>(k, v). (encode_child K k, encode_child K v)) x)"
  have run': "for_of ?body xs (m0, dh @ [shell]) = Some (Inr s')"
    using run by (simp only: for_of_map)
  have "dinv K s' \<and> m0 \<subseteq>\<^sub>m fst s' \<and>
         (\<exists>rest. snd s' = dh @ [foldl (\<lambda>ob (k, v). map_put ob k v) shell
                     (map ((\<lambda>g (k, v). (g k, g v)) (image_val (fst s') K)) xs)] @ rest) \<and>
         (\<forall>x \<in> set xs. \<forall>c \<in> set ((\<lambda>(k, v). [k, v]) x). registered K (fst s') c) \<and>
         (\<forall>j \<in> dom (fst s') - dom m0.
            done_id h K s' j \<and> (\<exists>a'. fst s' j = Some (VObj a') \<and> length dh < a'))"
  proof (rule dec_fill[where body = ?body and kids = "\<lambda>(k, v). [k, v]"
        and emit = "\<lambda>g (k, v). (g k, g v)" and put = "\<lambda>ob (k, v). map_put ob k v",
        OF _ _ run' inv0])
    fix x s s2
    assume x: "x \<in> set xs" and inv: "dinv K s" and b: "?body x s = Some (Inr s2)"
    obtain k v where xc: "x = (k, v)" by (cases x)
    from x kids have c: "child_ok K k" "child_ok K v" unfolding xc by force+
    have "\<exists>s1. grows h K s s1 \<and> (\<forall>c' \<in> set [k, v]. registered K (fst s1) c') \<and>
           s2 = (fst s1, (snd s1)[length dh := (\<lambda>ob (k, v). map_put ob k v) (snd s1 ! length dh)
                   (image_val (fst s1) K k, image_val (fst s1) K v)])"
    proof (rule fill_body_two[OF ok c inv, where k = "\<lambda>dk dv s2.
          return (fst s2, map_set (snd s2) (length dh) dk dv)"])
      show "and_then (f (encode_child K k) s) (\<lambda>(dk, s1).
              and_then (f (encode_child K v) s1) (\<lambda>(dv, s2).
                return (fst s2, map_set (snd s2) (length dh) dk dv))) = Some (Inr s2)"
        using b unfolding xc by simp
    next
      fix dk dv s2'
      assume "return (fst s2', map_set (snd s2') (length dh) dk dv) = Some (Inr s2)"
      then show "s2 = (fst s2', (snd s2')[length dh := (case (dk, dv) of (k, v) \<Rightarrow>
                   map_put (snd s2' ! length dh) k v)])"
        by (auto simp: return_def map_set_def)
    qed
    then show "\<exists>s1. grows h K s s1 \<and>
          (\<forall>c \<in> set (case x of (k, v) \<Rightarrow> [k, v]). registered K (fst s1) c) \<and>
          s2 = (fst s1, (snd s1)[length dh := (case (case x of (k, v) \<Rightarrow>
                   (image_val (fst s1) K k, image_val (fst s1) K v)) of (k, v) \<Rightarrow>
                     map_put (snd s1 ! length dh) k v)])"
      unfolding xc by simp
  next
    fix g g' :: "val \<Rightarrow> val" and x :: "val \<times> val"
    assume "\<forall>c \<in> set (case x of (k, v) \<Rightarrow> [k, v]). g c = g' c"
    then show "(case x of (k, v) \<Rightarrow> (g k, g v)) = (case x of (k, v) \<Rightarrow> (g' k, g' v))"
      by (cases x) simp
  qed
  then show ?thesis by (simp add: case_prod_beta)
qed

lemma bool_toString_true: "(bool_toString b = ''true'') = b"
  by (cases b) (simp_all add: bool_toString_def)

lemma construct_view_Inr:
  "construct_view hp name es ab off len = Inr ta \<Longrightarrow>
   \<exists>b'. ab = VObj b' \<and> ta = ViewObj name b' (nat off) (nat len * es)"
  by (auto simp: construct_view_def split: val.splits if_splits obj.splits)

lemma dec_ok_Internal:
  assumes wf: "wf_heap h" and can: "canonical h K objects"
  shows "dec_ok h K (structuredDeserializeInternal n objects)"
proof (induction n)
  case 0
  show ?case by (simp add: dec_ok_def structuredDeserializeInternal.simps)
next
  case (Suc n)
  let ?f = "structuredDeserializeInternal n objects"
  note unf = structuredDeserializeInternal.simps Let_def return_def throw_def
  show ?case unfolding dec_ok_def
  proof (intro allI impI)
    fix v s w s'
    assume c: "child_ok K v" and inv: "dinv K s"
      and run: "structuredDeserializeInternal (Suc n) objects (encode_child K v) s = Some (Inr (w, s'))"
    obtain m dh where s: "s = (m, dh)" by (cases s)
    let ?goal = "grows h K s s' \<and> w = image_val (fst s') K v \<and> registered K (fst s') v"
    show ?goal
    proof (cases "is_primitive v")
      case True
      from decode_primitive_encode_child[OF True, of K] obtain t x where
        "encode_child K v = Primitive t x" "decode_primitive t x = Inr v" by blast
      with run have "w = v" "s' = s" by (auto simp: unf)
      with True inv show ?thesis by (simp add: grows_refl image_val_def registered_def)
    next
      case False
      with c obtain a where v: "v = VObj a" by (auto simp: child_ok_def)
      note k = canonical_key[OF can c[unfolded v]]
      define i where "i = indexOf K (VObj a)"
      have node: "encode_child K v = Reference i" by (simp add: v i_def)
      have ik: "0 \<le> i" "i < int (length K)" "K ! nat i = VObj a" "indexOf K (VObj a) = i"
        "VObj a \<in> set K" and rec: "objects ! nat i = record_of K (h ! a)"
        and len: "length objects = length K" and a: "a < length h"
        and kids: "\<forall>c \<in> set (children (h ! a)). child_ok K c"
        using k by (simp_all add: i_def)
      from wf a have wfo: "wf_obj h (h ! a)" by (simp add: wf_heap_def)
      show ?thesis
      proof (cases "m i")
        case (Some w0)
        with run node s have "w = w0" "s' = s" by (auto simp: unf)
        with Some inv s ik show ?thesis
          by (auto simp: grows_refl image_val_def registered_def v)
      next
        case None
        let ?a0 = "length dh"
        let ?m0 = "m(i \<mapsto> VObj ?a0)"
        have leaf: ?goal if "w = VObj ?a0" "s' = (?m0, dh @ [ob'])"
          "\<And>f. image_obj f (h ! a) = ob'" "children (h ! a) = []" for ob'
        proof -
          have "dinv K s'" unfolding that(2) using inv ik None unfolding s by (intro dinv_alloc)
          have "grows h K (m, dh) s' \<and> VObj (length dh) = image_val (fst s') K (VObj a) \<and>
                registered K (fst s') (VObj a)"
          proof (rule fill_grows[where m = m and i = i and dh = dh and ob = ob' and rest = "[]"
                and h = h, OF ik None \<open>dinv K s'\<close>])
            show "m(i \<mapsto> VObj (length dh)) \<subseteq>\<^sub>m fst s'" unfolding that(2) by simp
            show "snd s' = dh @ [ob'] @ []" unfolding that(2) by simp
            show "\<forall>j \<in> dom (fst s') - dom (m(i \<mapsto> VObj (length dh))).
               done_id h K s' j \<and> (\<exists>a'. fst s' j = Some (VObj a') \<and> length dh < a')"
              unfolding that(2) by simp
            show "ob' = image_obj (image_val (fst s') K) (h ! a)" by (rule that(3)[symmetric])
            show "\<forall>c \<in> set (children (h ! a)). registered K (fst s') c"
              unfolding that(4) by simp
          qed
          then show ?thesis unfolding s v that(1) .
        qed
        have start: "dinv K (?m0, dh @ [shell])" for shell
          using inv ik None unfolding s by (intro dinv_alloc)
        have finish: ?goal
          if "w = VObj ?a0" "dinv K s'" "?m0 \<subseteq>\<^sub>m fst s'" "snd s' = dh @ [ob] @ rest"
            "\<forall>j \<in> dom (fst s') - dom ?m0.
               done_id h K s' j \<and> (\<exists>a'. fst s' j = Some (VObj a') \<and> ?a0 < a')"
            "ob = image_obj (image_val (fst s') K) (h ! a)"
            "\<forall>c \<in> set (children (h ! a)). registered K (fst s') c" for ob rest
          using fill_grows[where m = m and i = i and dh = dh, OF ik None that(2-7)]
          unfolding s v that(1) .
        show ?thesis
        proof (cases "h ! a")
          case (BooleanObj b)
          with run node s None ik len rec show ?thesis
            by (intro leaf[of "BooleanObj b"]) (auto simp: unf bool_toString_true)
        next
          case (NumberObj x)
          with run node s None ik len rec show ?thesis
            by (intro leaf[of "NumberObj x"]) (auto simp: unf toNumber_number_toString)
        next
          case (StringObj x)
          with run node s None ik len rec show ?thesis
            by (intro leaf[of "StringObj x"]) (auto simp: unf)
        next
          case (DateObj d)
          with k obtain t where "d = Some t" by (cases d) auto
          with DateObj run node s None ik len rec show ?thesis
            by (intro leaf[of "DateObj (Some t)"]) (auto simp: unf)
        next
          case (RegExpObj x y)
          with run node s None ik len rec show ?thesis
            by (intro leaf[of "RegExpObj x y"]) (auto simp: unf)
        next
          case (ArrayBufferObj bytes)
          with run node s None ik len rec show ?thesis
            by (intro leaf[of "ArrayBufferObj bytes"]) (auto simp: unf decode_buffer_bytes_roundtrip)
        next
          case (ErrorObj name msg)
          with run node s None ik len rec show ?thesis
            by (intro leaf[of "ErrorObj (if name \<in> set standard_error_names then name else ''Error'') msg"])
              (auto simp: unf)
        next
          case (PlainObj ps)
          from run node s None ik len rec PlainObj have w: "w = VObj ?a0"
            and loop: "for_of (\<lambda>(key, sv) s. and_then (?f sv s) (\<lambda>(dv, s1).
                 case reflect_set (snd s1) (length dh) key dv of
                   Inl e \<Rightarrow> throw e | Inr heap' \<Rightarrow> return (fst s1, heap')))
               (map (\<lambda>(k, c). (k, encode_child K c)) ps) (?m0, dh @ [PlainObj []]) = Some (Inr s')"
            by (auto simp: unf dest!: and_then_Inr)
          have kc: "\<forall>c \<in> snd ` set ps. child_ok K c" using kids PlainObj by auto
          from fill_properties[OF Suc.IH kc loop start] obtain rest where
            F: "dinv K s'" "?m0 \<subseteq>\<^sub>m fst s'"
              "snd s' = dh @ [foldl put_property (PlainObj [])
                 (map (\<lambda>(k, c). (k, image_val (fst s') K c)) ps)] @ rest"
              "\<forall>c \<in> snd ` set ps. registered K (fst s') c"
              "\<forall>j \<in> dom (fst s') - dom ?m0.
                 done_id h K s' j \<and> (\<exists>a'. fst s' j = Some (VObj a') \<and> ?a0 < a')"
            by blast
          let ?items = "map (\<lambda>(k, c). (k, image_val (fst s') K c)) ps"
          have keys: "map fst ?items = map fst ps" by (induction ps) auto
          have d: "distinct (map fst ([] @ ?items))"
            unfolding append_Nil keys using wfo PlainObj by simp
          have p: "''__proto__'' \<notin> set (map fst ?items)"
            unfolding keys using wfo PlainObj by simp
          have "foldl put_property (PlainObj []) ?items = PlainObj ([] @ ?items)"
            by (rule fold_put_plain[OF d p])
          then have ob: "foldl put_property (PlainObj []) ?items
                         = image_obj (image_val (fst s') K) (h ! a)"
            using PlainObj by simp
          show ?thesis
            by (rule finish[OF w F(1,2,3) F(5) ob]) (use F(4) PlainObj in auto)
        next
          case (ArrayObj len ps)
          let ?l = "(''length'', VNumber (Finite (int len)))"
          from wfo ArrayObj have lenok: "int len < 4294967296"
            and idx: "\<forall>key \<in> set (map fst ps). case array_index key of Some i \<Rightarrow> i < len | None \<Rightarrow> False"
            and dist: "distinct (map fst ps)" by auto
          from run node s None ik len rec ArrayObj lenok have w: "w = VObj ?a0"
            and loop: "for_of (\<lambda>(key, sv) s. and_then (?f sv s) (\<lambda>(dv, s1).
                 case reflect_set (snd s1) (length dh) key dv of
                   Inl e \<Rightarrow> throw e | Inr heap' \<Rightarrow> return (fst s1, heap')))
               (map (\<lambda>(k, c). (k, encode_child K c)) (ps @ [?l])) (?m0, dh @ [ArrayObj len []])
               = Some (Inr s')"
            by (auto simp: unf dest!: and_then_Inr)
          have kc: "\<forall>c \<in> snd ` set (ps @ [?l]). child_ok K c"
            using kids ArrayObj by (auto simp: child_ok_def)
          from fill_properties[OF Suc.IH kc loop start] obtain rest where
            F: "dinv K s'" "?m0 \<subseteq>\<^sub>m fst s'"
              "snd s' = dh @ [foldl put_property (ArrayObj len [])
                 (map (\<lambda>(k, c). (k, image_val (fst s') K c)) (ps @ [?l]))] @ rest"
              "\<forall>c \<in> snd ` set (ps @ [?l]). registered K (fst s') c"
              "\<forall>j \<in> dom (fst s') - dom ?m0.
                 done_id h K s' j \<and> (\<exists>a'. fst s' j = Some (VObj a') \<and> ?a0 < a')"
            by blast
          let ?items = "map (\<lambda>(k, c). (k, image_val (fst s') K c)) ps"
          have keys: "map fst ?items = map fst ps" by (induction ps) auto
          have d: "distinct (map fst ([] @ ?items))"
            unfolding append_Nil keys using dist by simp
          have ix: "\<forall>key \<in> set (map fst ?items).
                      case array_index key of Some i \<Rightarrow> i < len | None \<Rightarrow> False"
            unfolding keys using idx .
          have 1: "foldl put_property (ArrayObj len []) ?items = ArrayObj len ([] @ ?items)"
            by (rule fold_put_array[OF d ix])
          have 2: "put_property (ArrayObj len ?items) ?l = ArrayObj len ?items"
            by (rule put_array_length[OF lenok ix])
          have "foldl put_property (ArrayObj len [])
                 (map (\<lambda>(k, c). (k, image_val (fst s') K c)) (ps @ [?l])) = ArrayObj len ?items"
            using 1 2 by (simp add: image_val_def)
          then have ob: "foldl put_property (ArrayObj len [])
                 (map (\<lambda>(k, c). (k, image_val (fst s') K c)) (ps @ [?l]))
                         = image_obj (image_val (fst s') K) (h ! a)"
            using ArrayObj by simp
          show ?thesis
            by (rule finish[OF w F(1,2,3) F(5) ob]) (use F(4) ArrayObj in auto)
        next
          case (SetObj es)
          from run node s None ik len rec SetObj have w: "w = VObj ?a0"
            and loop: "for_of (\<lambda>sv s. and_then (?f sv s) (\<lambda>(dv, s1).
                 return (fst s1, set_add (snd s1) (length dh) dv)))
               (map (encode_child K) es) (?m0, dh @ [SetObj []]) = Some (Inr s')"
            by (auto simp: unf dest!: and_then_Inr)
          have kc: "\<forall>c \<in> set es. child_ok K c" using kids SetObj by auto
          from fill_set[OF Suc.IH kc loop start] obtain rest where
            F: "dinv K s'" "?m0 \<subseteq>\<^sub>m fst s'"
              "snd s' = dh @ [foldl set_insert (SetObj []) (map (image_val (fst s') K) es)] @ rest"
              "\<forall>c \<in> set es. registered K (fst s') c"
              "\<forall>j \<in> dom (fst s') - dom ?m0.
                 done_id h K s' j \<and> (\<exists>a'. fst s' j = Some (VObj a') \<and> ?a0 < a')"
            by blast
          have "distinct (map (image_val (fst s') K) es)"
            using wfo SetObj image_inj_on[OF F(1) can F(4)] by (simp add: distinct_map)
          then have "foldl set_insert (SetObj []) (map (image_val (fst s') K) es)
                     = SetObj ([] @ map (image_val (fst s') K) es)"
            by (intro fold_set_insert) simp
          then have ob: "foldl set_insert (SetObj []) (map (image_val (fst s') K) es)
                         = image_obj (image_val (fst s') K) (h ! a)"
            using SetObj by simp
          show ?thesis
            by (rule finish[OF w F(1,2,3) F(5) ob]) (use F(4) SetObj in auto)
        next
          case (MapObj es)
          from run node s None ik len rec MapObj have w: "w = VObj ?a0"
            and loop: "for_of (\<lambda>(sk, sv) s. and_then (?f sk s) (\<lambda>(dk, s1).
                 and_then (?f sv s1) (\<lambda>(dv, s2).
                   return (fst s2, map_set (snd s2) (length dh) dk dv))))
               (map (\<lambda>(k, v). (encode_child K k, encode_child K v)) es) (?m0, dh @ [MapObj []])
               = Some (Inr s')"
            by (auto simp: unf dest!: and_then_Inr)
          have kc: "\<forall>x \<in> set es. child_ok K (fst x) \<and> child_ok K (snd x)"
            using kids MapObj by force
          from fill_map[OF Suc.IH kc loop start] obtain rest where
            F: "dinv K s'" "?m0 \<subseteq>\<^sub>m fst s'"
              "snd s' = dh @ [foldl (\<lambda>ob (k, v). map_put ob k v) (MapObj [])
                 (map (\<lambda>(k, v). (image_val (fst s') K k, image_val (fst s') K v)) es)] @ rest"
              "\<forall>x \<in> set es. registered K (fst s') (fst x) \<and> registered K (fst s') (snd x)"
              "\<forall>j \<in> dom (fst s') - dom ?m0.
                 done_id h K s' j \<and> (\<exists>a'. fst s' j = Some (VObj a') \<and> ?a0 < a')"
            by blast
          let ?items = "map (\<lambda>(k, v). (image_val (fst s') K k, image_val (fst s') K v)) es"
          have keys: "map fst ?items = map (image_val (fst s') K) (map fst es)"
            by (induction es) auto
          have "\<forall>c \<in> set (map fst es). registered K (fst s') c" using F(4) by auto
          from image_inj_on[OF F(1) can this]
          have inj: "inj_on (image_val (fst s') K) (set (map fst es))" .
          from wfo MapObj have "distinct (map fst es)" by simp
          with inj have "distinct (map (image_val (fst s') K) (map fst es))"
            by (subst distinct_map) blast
          then have "distinct (map fst ?items)" unfolding keys .
          then have "foldl (\<lambda>ob (k, v). map_put ob k v) (MapObj []) ?items = MapObj ([] @ ?items)"
            by (intro fold_map_put) simp
          then have ob: "foldl (\<lambda>ob (k, v). map_put ob k v) (MapObj []) ?items
                         = image_obj (image_val (fst s') K) (h ! a)"
            using MapObj by simp
          show ?thesis
            by (rule finish[OF w F(1,2,3) F(5) ob]) (use F(4) MapObj in force)
        next
          case (ViewObj name b off len)
          from wfo ViewObj obtain bytes where b: "b < length h" "h ! b = ArrayBufferObj bytes"
            by (cases "h ! b") auto
          from kids ViewObj have cb: "child_ok K (VObj b)" by simp
          from run node s None ik len rec ViewObj obtain es where
            es: "typedArrayConstructor name = Inr es"
            by (auto simp: unf split: sum.splits)
          with run node s None ik len rec ViewObj obtain ab s1 ta where
            r1: "?f (encode_child K (VObj b)) s = Some (Inr (ab, s1))"
            and cv: "construct_view (snd s1) name es ab (int off) (int len) = Inr ta"
            and w: "w = VObj (length (snd s1))"
            and s': "s' = ((fst s1)(i \<mapsto> VObj (length (snd s1))), snd s1 @ [ta])"
            by (auto simp: unf split: sum.splits dest!: and_then_pair_Inr)
          from dec_okD[OF Suc.IH cb inv r1] have g1: "grows h K s s1"
            and ab: "ab = image_val (fst s1) K (VObj b)"
            and rb: "registered K (fst s1) (VObj b)" by auto
          from g1 have inv1: "dinv K s1" by (simp add: grows_def)
          from construct_view_Inr[OF cv] obtain b' where b': "ab = VObj b'"
            and ta: "ta = ViewObj name b' off (len * es)" by auto
          have ne: "indexOf K (VObj b) \<noteq> i"
          proof
            assume "indexOf K (VObj b) = i"
            with indexOf_nth[of "VObj b" K] cb ik(3) have "a = b" by (simp add: child_ok_def)
            with ViewObj b show False by simp
          qed
          from dec_buffer_call[OF can cb b(2) r1] None ne have fresh1: "fst s1 i = None"
            unfolding s by auto
          obtain m1 h1 where s1: "s1 = (m1, h1)" by (cases s1)
          have inv': "dinv K s'"
            unfolding s' s1 fst_conv snd_conv using inv1 ik(1,2) fresh1 unfolding s1
            by (intro dinv_alloc) simp_all
          have le1: "m1 \<subseteq>\<^sub>m fst s'" unfolding s' s1 using fresh1 s1
            by (auto simp: map_le_def)
          have "grows h K s1 s' \<and> VObj (length h1) = image_val (fst s') K (VObj a) \<and>
                registered K (fst s') (VObj a)"
            unfolding s1
          proof (rule fill_grows[where m = m1 and i = i and dh = h1 and ob = ta and rest = "[]"
                and h = h, OF ik _ inv'])
            show "m1 i = None" using fresh1 s1 by simp
            show "m1(i \<mapsto> VObj (length h1)) \<subseteq>\<^sub>m fst s'" unfolding s' s1 by simp
            show "snd s' = h1 @ [ta] @ []" unfolding s' s1 by simp
            show "\<forall>j \<in> dom (fst s') - dom (m1(i \<mapsto> VObj (length h1))).
               done_id h K s' j \<and> (\<exists>a'. fst s' j = Some (VObj a') \<and> length h1 < a')"
              unfolding s' s1 by simp
            have "image_val (fst s') K (VObj b) = VObj b'"
              using image_val_mono[OF rb[unfolded s1 fst_conv] le1] ab b' s1 by simp
            then show "ta = image_obj (image_val (fst s') K) (h ! a)"
              unfolding ViewObj ta using es by (simp add: element_size_def)
            show "\<forall>c \<in> set (children (h ! a)). registered K (fst s') c"
              unfolding ViewObj using registered_mono[OF rb[unfolded s1 fst_conv] le1] by simp
          qed
          then have g2: "grows h K s1 s'" and im: "w = image_val (fst s') K v"
            and rg: "registered K (fst s') v" unfolding w s1 v by simp_all
          from grows_trans[OF g1 g2 inv1] im rg show ?thesis by simp
        qed (use k in \<open>auto\<close>)
      qed
    qed
  qed
qed

section \<open>Concrete runs\<close>

text \<open>
  C4, at a record whose two properties are a \<open>Uint8Array\<close> and a \<open>DataView\<close> over one
  two-byte buffer.  The encoder gives both views the reference to the one buffer record,
  as the claim asks; the decoder then throws at the \<open>DataView\<close> record, because its
  \<open>case 'DataView'\<close> runs on into \<open>default\<close>.  No views are decoded, so the shared
  buffer instance of the claim is not produced.
\<close>

theorem dataview_and_typed_array_sharing_a_buffer:
  "structuredSerialize
     [PlainObj [(''a'', VObj 1), (''b'', VObj 2)], ViewObj ''Uint8Array'' 3 0 2,
      ViewObj ''DataView'' 3 0 2, ArrayBufferObj [1, 255]] (VObj 0)
   = Some (Inr (TopLevel
       [ObjectS [(''a'', Reference 2), (''b'', Reference 3)], ArrayBufferS 2 ''1,255'',
        ArrayBufferViewS ''Uint8Array'' 0 2 (Reference 1),
        ArrayBufferViewS ''DataView'' 0 2 (Reference 1)] (Reference 0)))
   \<and> structuredDeserialize 5 (TopLevel
       [ObjectS [(''a'', Reference 2), (''b'', Reference 3)], ArrayBufferS 2 ''1,255'',
        ArrayBufferViewS ''Uint8Array'' 0 2 (Reference 1),
        ArrayBufferViewS ''DataView'' 0 2 (Reference 1)] (Reference 0))
   = Some (Inl (Error ''Unknown typed array name''))"
  by code_simp

lemma encode_child_in_range: "child_ok K c \<Longrightarrow> ref_in_range (length K) (encode_child K c)"
  by (cases c) (auto simp: child_ok_def indexOf_nonneg_iff indexOf_less)

lemma record_of_in_range:
  assumes "\<forall>c \<in> set (children ob). child_ok K c"
  shows "\<forall>n \<in> set (child_nodes (record_of K ob)). ref_in_range (length K) n"
proof (cases ob)
  case (ViewObj name b off len)
  with assms encode_child_in_range[of K "VObj b"] show ?thesis by simp
qed (use assms in \<open>auto simp: encode_child_in_range split: option.splits\<close>)

lemma serialize_run:
  assumes wf: "wf_heap h" and run: "structuredSerializeInternal n h v [] = Some (Inr (node, mem))"
  shows "keys_ok h mem \<and> node = encode_child (map fst mem) v \<and> child_ok (map fst mem) v \<and>
         (\<forall>e \<in> set mem. entry_complete h (map fst mem) e)"
proof -
  have "keys_ok h []" by (simp add: keys_ok_def)
  from enc_specD[OF enc_spec_Internal[OF wf] this run] show ?thesis by auto
qed

section \<open>Envelopes of the encoder are well-formed\<close>

text \<open>
  C10.  When \<open>structuredSerialize\<close> returns for a value that is not a primitive, the
  envelope is a \<open>TopLevel\<close> whose top-level value is a reference, and that reference and
  every child node of every record (the buffer of a view, the keys and values of a map,
  the elements of a set, the property values of an array or object) refer into the
  record array.
\<close>

theorem envelope_references_in_range:
  assumes wf: "wf_heap h" and np: "\<not> is_primitive v"
    and run: "structuredSerialize h v = Some (Inr envelope)"
  shows "\<exists>objects i. envelope = TopLevel objects (Reference i) \<and> 0 \<le> i \<and> i < int (length objects) \<and>
           (\<forall>r \<in> set objects. \<forall>c \<in> set (child_nodes r). ref_in_range (length objects) c)"
proof -
  from and_then_Inr[OF run[unfolded structuredSerialize_def]] obtain x where
    rx: "structuredSerializeInternal (length h + 2) h v [] = Some (Inr x)"
    and ex: "(case x of (serialized, memory) \<Rightarrow> (case serialized of
                Primitive t x \<Rightarrow> Some (Inr (TopPrimitive t x))
              | Reference i \<Rightarrow> Some (Inr (TopLevel (map snd memory) serialized))))
             = (Some (Inr envelope) :: TopLevelSerialization result)" by blast
  obtain node mem where x: "x = (node, mem)" by (cases x)
  note r = rx[unfolded x] and env = ex[unfolded x prod.case]
  let ?K = "map fst mem"
  from serialize_run[OF wf r] have node: "node = encode_child ?K v" and cv: "child_ok ?K v"
    and comp: "\<forall>e \<in> set mem. entry_complete h ?K e" by auto
  from cv np obtain a where v: "v = VObj a" by (auto simp: child_ok_def)
  with node have n: "node = Reference (indexOf ?K v)" by simp
  with env have e: "envelope = TopLevel (map snd mem) (Reference (indexOf ?K v))" by simp
  have rng: "ref_in_range (length ?K) node" unfolding node by (rule encode_child_in_range[OF cv])
  have "\<forall>r \<in> set (map snd mem). \<forall>c \<in> set (child_nodes r). ref_in_range (length (map snd mem)) c"
  proof
    fix r assume "r \<in> set (map snd mem)"
    then obtain e where "e \<in> set mem" "r = snd e" by auto
    with comp obtain b where "r = record_of ?K (h ! b)" "\<forall>c \<in> set (children (h ! b)). child_ok ?K c"
      by (auto simp: entry_complete_def)
    with record_of_in_range[of "h ! b" ?K]
    show "\<forall>c \<in> set (child_nodes r). ref_in_range (length (map snd mem)) c" by simp
  qed
  with e rng n show ?thesis by auto
qed

theorem envelope_references_in_range_witness:
  "wf_heap [PlainObj [(''self'', VObj 0), (''m'', VObj 1)], MapObj [(VString ''k'', VObj 0)]]
   \<and> \<not> is_primitive (VObj 0)
   \<and> structuredSerialize
        [PlainObj [(''self'', VObj 0), (''m'', VObj 1)], MapObj [(VString ''k'', VObj 0)]] (VObj 0)
      = Some (Inr (TopLevel
          [ObjectS [(''self'', Reference 0), (''m'', Reference 1)],
           MapS [(Primitive ''string'' ''k'', Reference 0)]] (Reference 0)))
   \<and> (\<exists>objects i.
        TopLevel [ObjectS [(''self'', Reference 0), (''m'', Reference 1)],
                  MapS [(Primitive ''string'' ''k'', Reference 0)]] (Reference 0)
          = TopLevel objects (Reference i) \<and> 0 \<le> i \<and> i < int (length objects) \<and>
        (\<forall>r \<in> set objects. \<forall>c \<in> set (child_nodes r). ref_in_range (length objects) c))"
proof -
  let ?h = "[PlainObj [(''self'', VObj 0), (''m'', VObj 1)], MapObj [(VString ''k'', VObj 0)]]"
  have 1: "wf_heap ?h" by code_simp
  have 2: "\<not> is_primitive (VObj 0)" by simp
  have 3: "structuredSerialize ?h (VObj 0)
      = Some (Inr (TopLevel
          [ObjectS [(''self'', Reference 0), (''m'', Reference 1)],
           MapS [(Primitive ''string'' ''k'', Reference 0)]] (Reference 0)))" by code_simp
  from envelope_references_in_range[OF 1 2 3] 1 2 3 show ?thesis by blast
qed

section \<open>Unsupported values\<close>

text \<open>
  C7, as stated, at a record that holds an invalid date and, after it, a function: the
  graph contains a function, but the encoder comes to the date first, and
  \<open>toISOString\<close> throws a \<open>RangeError\<close>; the call does not fail with the
  unsupported-type error.
\<close>

theorem invalid_date_before_function:
  "structuredSerialize
     [PlainObj [(''when'', VObj 1), (''f'', VObj 2)], DateObj None, FunctionObj] (VObj 0)
   = Some (Inl (RangeError ''Invalid time value''))"
  by code_simp

text \<open>
  C7, amended.  If a symbol or an object of one of the rejected classes (function,
  \<open>WeakMap\<close>, \<open>WeakSet\<close>, \<open>WeakRef\<close>, \<open>FinalizationRegistry\<close>, \<open>Promise\<close>) can be reached
  from the value, at any depth, then \<open>structuredSerialize\<close> throws and returns no envelope.
  What it throws is the \<open>TypeError\<close> for an unsupported value, unless an invalid date can
  also be reached from the value, in which case it may be the \<open>RangeError\<close> of that date.
\<close>

theorem unsupported_value_rejected:
  assumes wf: "wf_heap h" and vh: "in_heap h v"
    and r: "reachable h v w" and u: "unsupported_value h w"
  shows "\<exists>e. structuredSerialize h v = Some (Inl e) \<and>
           (is_TypeError e \<or>
            (e = RangeError ''Invalid time value'' \<and>
             (\<exists>a. reachable h v (VObj a) \<and> a < length h \<and> h ! a = DateObj None)))"
proof -
  let ?r = "structuredSerializeInternal (length h + 2) h v []"
  from structuredSerialize_returns[OF wf vh] obtain res where res: "?r = Some res" by auto
  show ?thesis
  proof (cases res)
    case (Inl e)
    from enc_errors[OF wf vh res[unfolded Inl]] have "enc_error_ok h v e" .
    moreover have "structuredSerialize h v = Some (Inl e)"
      unfolding structuredSerialize_def res Inl by simp
    ultimately show ?thesis unfolding enc_error_ok_def by blast
  next
    case (Inr x)
    obtain node mem where x: "x = (node, mem)" by (cases x)
    from serialize_run[OF wf res[unfolded Inr x]]
    have "child_ok (map fst mem) v" "\<forall>e \<in> set mem. entry_complete h (map fst mem) e" by auto
    from reachable_closed[OF this(2,1) r] u show ?thesis by simp
  qed
qed

theorem unsupported_value_rejected_witness:
  "wf_heap [PlainObj [(''n'', VNumber (Finite 1)), (''inner'', VObj 1)], SetObj [VObj 2], FunctionObj]
   \<and> in_heap [PlainObj [(''n'', VNumber (Finite 1)), (''inner'', VObj 1)], SetObj [VObj 2],
        FunctionObj] (VObj 0)
   \<and> reachable [PlainObj [(''n'', VNumber (Finite 1)), (''inner'', VObj 1)], SetObj [VObj 2],
        FunctionObj] (VObj 0) (VObj 2)
   \<and> unsupported_value [PlainObj [(''n'', VNumber (Finite 1)), (''inner'', VObj 1)],
        SetObj [VObj 2], FunctionObj] (VObj 2)
   \<and> (\<exists>e. structuredSerialize [PlainObj [(''n'', VNumber (Finite 1)), (''inner'', VObj 1)],
        SetObj [VObj 2], FunctionObj] (VObj 0) = Some (Inl e) \<and>
        (is_TypeError e \<or>
         (e = RangeError ''Invalid time value'' \<and>
          (\<exists>a. reachable [PlainObj [(''n'', VNumber (Finite 1)), (''inner'', VObj 1)],
                  SetObj [VObj 2], FunctionObj] (VObj 0) (VObj a) \<and>
               a < length [PlainObj [(''n'', VNumber (Finite 1)), (''inner'', VObj 1)],
                  SetObj [VObj 2], FunctionObj] \<and>
               [PlainObj [(''n'', VNumber (Finite 1)), (''inner'', VObj 1)],
                  SetObj [VObj 2], FunctionObj] ! a = DateObj None))))"
proof -
  let ?h = "[PlainObj [(''n'', VNumber (Finite 1)), (''inner'', VObj 1)], SetObj [VObj 2], FunctionObj]"
  have 1: "wf_heap ?h" by code_simp
  have 2: "in_heap ?h (VObj 0)" by simp
  have "reachable ?h (VObj 0) (VObj 1)"
    by (rule reachable_child[OF reachable_root, of 0]) simp_all
  then have 3: "reachable ?h (VObj 0) (VObj 2)"
    by (rule reachable_child) simp_all
  have 4: "unsupported_value ?h (VObj 2)" by simp
  show ?thesis by (intro conjI 1 2 3 4 unsupported_value_rejected[OF 1 2 3 4])
qed

section \<open>Assignment of ids\<close>

text \<open>
  C5, as stated, at a \<open>Uint8Array\<close> over a buffer that has not been visited: the view is
  the first value visited, but the encoder serializes the buffer before it puts the view
  into the memory, so the buffer takes id 0 and the view id 1.
\<close>

theorem view_inserted_after_its_buffer:
  "structuredSerialize [ViewObj ''Uint8Array'' 1 0 2, ArrayBufferObj [7, 9]] (VObj 0)
   = Some (Inr (TopLevel
       [ArrayBufferS 2 ''7,9'', ArrayBufferViewS ''Uint8Array'' 0 2 (Reference 0)] (Reference 1)))"
  by code_simp

text \<open>
  C5, amended.  A value that is not a primitive and not a buffer view, first visited when
  the memory holds \<open>length mem\<close> values, is given the id \<open>length mem\<close>: the call returns the
  reference to that id, and the entry of the value is the first that the call appends, so
  that it is in the memory before any of its children is visited.  The record of the
  value is the one that describes it under the final keys, and in it every child that is
  the value itself or a value visited before is the reference to the id that this value
  already has.
\<close>

theorem id_assigned_before_children:
  assumes wf: "wf_heap h" and ok: "keys_ok h mem" and a: "a < length h"
    and fresh: "VObj a \<notin> set (map fst mem)" and nv: "\<not> is_view (h ! a)"
    and run: "structuredSerializeInternal n h (VObj a) mem = Some (Inr (node, mem'))"
  shows "node = Reference (int (length mem)) \<and>
         (\<exists>rest. mem' = mem @ (VObj a, record_of (map fst mem') (h ! a)) # rest \<and>
            (\<forall>c \<in> set (children (h ! a)). c \<in> set (map fst mem @ [VObj a]) \<longrightarrow>
               encode_child (map fst mem') c = Reference (indexOf (map fst mem @ [VObj a]) c)))"
proof -
  from enc_spec_Internal[OF wf, of n] ok run have post: "enc_post h (VObj a) mem node mem'"
    unfolding enc_spec_def by blast
  then obtain new where new: "mem' = mem @ new" and node: "node = encode_child (map fst mem') (VObj a)"
    and comp: "\<forall>e \<in> set new. entry_complete h (map fst mem') e"
    unfolding enc_post_def by blast
  from post fresh a nv obtain r rest where shape: "mem' = mem @ (VObj a, r) # rest"
    unfolding enc_post_def by blast
  let ?K = "map fst mem'"
  have K: "?K = (map fst mem @ [VObj a]) @ map fst rest" using shape by simp
  from new shape have "(VObj a, r) \<in> set new" by auto
  with comp have "entry_complete h ?K (VObj a, r)" by blast
  then have r: "r = record_of ?K (h ! a)" by (auto simp: entry_complete_def)
  have "indexOf ?K (VObj a) = int (length mem)"
    using shape indexOf_append_new[OF fresh, of "map fst rest"] by simp
  with node have n: "node = Reference (int (length mem))" by simp
  have refers: "encode_child ?K c = Reference (indexOf (map fst mem @ [VObj a]) c)"
    if "c \<in> set (map fst mem @ [VObj a])" for c
  proof -
    from that ok obtain b where b: "c = VObj b" by (auto simp: keys_ok_def)
    from indexOf_append_present[OF that, of "map fst rest"] show ?thesis
      unfolding K b by simp
  qed
  from n shape r refers show ?thesis by blast
qed

theorem id_assigned_before_children_witness:
  "wf_heap [PlainObj [(''self'', VObj 0), (''other'', VObj 1)], SetObj [VObj 0, VObj 1]]
   \<and> keys_ok [PlainObj [(''self'', VObj 0), (''other'', VObj 1)], SetObj [VObj 0, VObj 1]]
        [(VObj 0, ObjectS [(''self'', Reference 0)])]
   \<and> 1 < length [PlainObj [(''self'', VObj 0), (''other'', VObj 1)], SetObj [VObj 0, VObj 1]]
   \<and> VObj 1 \<notin> set (map fst [(VObj 0, ObjectS [(''self'', Reference 0)])])
   \<and> \<not> is_view ([PlainObj [(''self'', VObj 0), (''other'', VObj 1)], SetObj [VObj 0, VObj 1]] ! 1)
   \<and> structuredSerializeInternal 2
        [PlainObj [(''self'', VObj 0), (''other'', VObj 1)], SetObj [VObj 0, VObj 1]] (VObj 1)
        [(VObj 0, ObjectS [(''self'', Reference 0)])]
      = Some (Inr (Reference 1,
        [(VObj 0, ObjectS [(''self'', Reference 0)]),
        (VObj 1, SetS [Reference 0, Reference 1])]))
   \<and> (Reference 1 = Reference (int (length [(VObj 0, ObjectS [(''self'', Reference 0)])]))
      \<and> (\<exists>rest.
        [(VObj 0, ObjectS [(''self'', Reference 0)]),
        (VObj 1, SetS [Reference 0, Reference 1])]
        = [(VObj 0, ObjectS [(''self'', Reference 0)])] @
          (VObj 1, record_of (map fst
        [(VObj 0, ObjectS [(''self'', Reference 0)]),
        (VObj 1, SetS [Reference 0, Reference 1])])
            ([PlainObj [(''self'', VObj 0), (''other'', VObj 1)], SetObj [VObj 0, VObj 1]] ! 1)) # rest
        \<and> (\<forall>c \<in> set (children ([PlainObj [(''self'', VObj 0), (''other'', VObj 1)], SetObj [VObj 0, VObj 1]] ! 1)).
             c \<in> set (map fst [(VObj 0, ObjectS [(''self'', Reference 0)])] @ [VObj 1]) \<longrightarrow>
             encode_child (map fst
        [(VObj 0, ObjectS [(''self'', Reference 0)]),
        (VObj 1, SetS [Reference 0, Reference 1])]) c
             = Reference (indexOf (map fst [(VObj 0, ObjectS [(''self'', Reference 0)])] @ [VObj 1]) c))))"
proof -
  let ?H = "[PlainObj [(''self'', VObj 0), (''other'', VObj 1)], SetObj [VObj 0, VObj 1]]"
  let ?M = "[(VObj 0, ObjectS [(''self'', Reference 0)])]"
  let ?M2 = "[(VObj 0, ObjectS [(''self'', Reference 0)]),
        (VObj 1, SetS [Reference 0, Reference 1])]"
  have 1: "wf_heap ?H" by code_simp
  have 2: "keys_ok ?H ?M" by (simp add: keys_ok_def)
  have 3: "1 < length ?H" by simp
  have 4: "VObj 1 \<notin> set (map fst ?M)" by simp
  have 5: "\<not> is_view (?H ! 1)" by simp
  have 6: "structuredSerializeInternal 2 ?H (VObj 1) ?M = Some (Inr (Reference 1, ?M2))"
    by code_simp
  show ?thesis by (intro conjI 1 2 3 4 5 6 id_assigned_before_children[OF 1 2 3 4 5 6])
qed

section \<open>Rejected envelopes\<close>

text \<open>
  C2, as stated, at an envelope whose only record has the unknown \<open>type\<close> \<open>Foo\<close>: the
  decoder takes no branch for it, stores \<open>undefined\<close> under its id and returns
  \<open>undefined\<close>; it does not throw.
\<close>

theorem unknown_variant_decodes_to_undefined:
  "structuredDeserialize 2 (TopLevel [UnknownS ''Foo''] (Reference 0)) = Some (Inr (VUndefined, []))"
  by code_simp

text \<open>
  C2, amended.  If the decoder, from the top-level value and through the records that it
  references, comes to a reference whose id is outside the record array, or to a view
  record whose name is none of the case labels of the decoder's \<open>switch\<close>, then
  \<open>structuredDeserialize\<close> returns no value, at whatever depth of recursion: the call
  throws, or its recursion does not end (which the host ends with an error as well).
\<close>

theorem decode_rejects_reached:
  assumes r: "reached objects topLevelValue i" and bad: "rejected_at objects i"
  shows "structuredDeserialize depth (TopLevel objects topLevelValue) \<noteq> Some (Inr result)"
proof
  assume "structuredDeserialize depth (TopLevel objects topLevelValue) = Some (Inr result)"
  then obtain v st' where
    run: "structuredDeserializeInternal depth objects topLevelValue (Map.empty, []) = Some (Inr (v, st'))"
    unfolding structuredDeserialize_def by (auto dest!: and_then_pair_Inr)
  from decode_run[OF run] reached_registered[OF _ _ r, of "dom (fst st')"]
  have "complete_id objects (dom (fst st')) i" by blast
  then have rng: "0 \<le> i" "i < int (length objects)" and ok: "record_ok (objects ! nat i)"
    by (auto simp: complete_id_def)
  from bad rng obtain name off len buf where
    "objects ! nat i = ArrayBufferViewS name off len buf" "name \<notin> set view_case_labels"
    by (auto simp: rejected_at_def split: ComplexSerialization.splits)
  with ok unknown_view_kind[of name] show False by simp
qed

theorem decode_rejects_reached_witness:
  "reached [ObjectS [(''x'', Reference 7)]] (Reference 0) 7
   \<and> rejected_at [ObjectS [(''x'', Reference 7)]] 7
   \<and> structuredDeserialize 5 (TopLevel [ObjectS [(''x'', Reference 7)]] (Reference 0)) \<noteq> Some (Inr (VUndefined, []))"
proof -
  have "reached [ObjectS [(''x'', Reference 7)]] (Reference 0) 0" by (rule reached_top) simp
  then have 1: "reached [ObjectS [(''x'', Reference 7)]] (Reference 0) 7" by (rule reached_child) simp_all
  have 2: "rejected_at [ObjectS [(''x'', Reference 7)]] 7" by (simp add: rejected_at_def)
  show ?thesis by (intro conjI 1 2 decode_rejects_reached[OF 1 2])
qed

end
